theory Spec2Isabelle
  imports Main "HOL-Library.Sublist"
begin

section \<open>Python strings\<close>

text \<open>
  A Python \<open>str\<close> is modelled as a \<open>string\<close>: the character with code \<open>n\<close> stands for
  the code point \<open>n\<close>, so the model covers the strings whose code points are below 256.
  On these, \<open>str.isspace\<close>, the class \<open>\s\<close> of \<open>re\<close> and the separator set of
  \<open>str.split()\<close> and \<open>str.strip()\<close> are the same twelve characters.
\<close>

definition is_space :: "char \<Rightarrow> bool" where
  "is_space c \<longleftrightarrow> c \<in> set [CHR 0x09, CHR 0x0A, CHR 0x0B, CHR 0x0C, CHR 0x0D,
     CHR 0x1C, CHR 0x1D, CHR 0x1E, CHR 0x1F, CHR 0x20, CHR 0x85, CHR 0xA0]"

definition is_digit :: "char \<Rightarrow> bool" where
  "is_digit c \<longleftrightarrow> 48 \<le> (of_char c :: nat) \<and> (of_char c :: nat) \<le> 57"

definition ascii_upper :: "char \<Rightarrow> bool" where
  "ascii_upper c \<longleftrightarrow> 65 \<le> (of_char c :: nat) \<and> (of_char c :: nat) \<le> 90"

definition ascii_lower :: "char \<Rightarrow> bool" where
  "ascii_lower c \<longleftrightarrow> 97 \<le> (of_char c :: nat) \<and> (of_char c :: nat) \<le> 122"

definition ascii_alpha :: "char \<Rightarrow> bool" where
  "ascii_alpha c \<longleftrightarrow> ascii_upper c \<or> ascii_lower c"

text \<open>\<open>str.lower\<close> on one character: A-Z and the upper-case letters 0xC0-0xDE (0xD7 apart).\<close>

definition lower_char :: "char \<Rightarrow> char" where
  "lower_char c =
     (let n = (of_char c :: nat)
      in if (65 \<le> n \<and> n \<le> 90) \<or> (192 \<le> n \<and> n \<le> 222 \<and> n \<noteq> 215)
         then char_of (n + 32) else c)"

definition lower :: "string \<Rightarrow> string" where
  "lower s = map lower_char s"

text \<open>
  A literal of a pattern compiled with \<open>re.IGNORECASE\<close> matches a character when both
  have the same lower-case form; \<open>imatch w s\<close>: the literal \<open>w\<close> matches at the start of \<open>s\<close>.
\<close>

definition imatch :: "string \<Rightarrow> string \<Rightarrow> bool" where
  "imatch w s \<longleftrightarrow> length w \<le> length s \<and> lower (take (length w) s) = lower w"

definition py_strip :: "string \<Rightarrow> string" where
  "py_strip s = rev (dropWhile is_space (rev (dropWhile is_space s)))"

definition strip_chars :: "string \<Rightarrow> string \<Rightarrow> string" where
  "strip_chars cs s =
     rev (dropWhile (\<lambda>c. c \<in> set cs) (rev (dropWhile (\<lambda>c. c \<in> set cs) s)))"

definition rstrip_chars :: "string \<Rightarrow> string \<Rightarrow> string" where
  "rstrip_chars cs s = rev (dropWhile (\<lambda>c. c \<in> set cs) (rev s))"

text \<open>\<open>s.split()\<close>: the maximal runs of characters that are not white space.\<close>

fun split_ws_aux :: "string \<Rightarrow> string \<Rightarrow> string list" where
  "split_ws_aux w [] = (if w = [] then [] else [w])"
| "split_ws_aux w (c # cs) =
     (if is_space c then (if w = [] then split_ws_aux [] cs else w # split_ws_aux [] cs)
      else split_ws_aux (w @ [c]) cs)"

definition split_ws :: "string \<Rightarrow> string list" where
  "split_ws s = split_ws_aux [] s"

text \<open>\<open>s.split(d)\<close> for a one-character separator \<open>d\<close>.\<close>

fun split_on :: "char \<Rightarrow> string \<Rightarrow> string list" where
  "split_on d [] = [[]]"
| "split_on d (c # cs) =
     (if c = d then [] # split_on d cs
      else (case split_on d cs of [] \<Rightarrow> [[c]] | w # ws \<Rightarrow> (c # w) # ws))"

fun join :: "string \<Rightarrow> string list \<Rightarrow> string" where
  "join sep [] = []"
| "join sep [w] = w"
| "join sep (w # v # ws) = w @ sep @ join sep (v # ws)"

text \<open>\<open>p in s\<close> for strings.\<close>

fun contains :: "string \<Rightarrow> string \<Rightarrow> bool" where
  "contains p [] = (p = [])"
| "contains p (c # cs) = (prefix p (c # cs) \<or> contains p cs)"

text \<open>\<open>s.find(c)\<close>, with \<open>None\<close> for -1.\<close>

fun find_char :: "char \<Rightarrow> string \<Rightarrow> nat option" where
  "find_char d [] = None"
| "find_char d (c # cs) = (if c = d then Some 0 else map_option Suc (find_char d cs))"

text \<open>\<open>s.split(d, 1)\<close> when \<open>d\<close> occurs in \<open>s\<close>: the text before and after the first \<open>d\<close>.\<close>

definition split_first :: "char \<Rightarrow> string \<Rightarrow> string \<times> string" where
  "split_first d s = (takeWhile (\<lambda>c. c \<noteq> d) s, drop 1 (dropWhile (\<lambda>c. c \<noteq> d) s))"

text \<open>\<open>s.replace(p, "")\<close> for a non-empty \<open>p\<close>: the occurrences from left to right.\<close>

function remove_sub :: "string \<Rightarrow> string \<Rightarrow> string" where
  "remove_sub p [] = []"
| "remove_sub p (c # cs) =
     (if p \<noteq> [] \<and> prefix p (c # cs) then remove_sub p (drop (length p) (c # cs))
      else c # remove_sub p cs)"
  by pat_completeness auto
termination
  by (relation "measure (\<lambda>(p, s). length s)") (auto simp: neq_Nil_conv)

section \<open>The manifest pattern \<open>M3U8_RE\<close>\<close>

text \<open>
  \<open>M3U8_RE = (https?://[^\s"'<>`]+?\.m3u8(?:\?[^\s"'<>`]*)?)\<close>, compiled with
  \<open>re.IGNORECASE\<close>. \<open>url_char\<close> is the class \<open>[^\s"'<>`]\<close>.
\<close>

definition url_char :: "char \<Rightarrow> bool" where
  "url_char c \<longleftrightarrow> \<not> is_space c \<and> c \<notin> set [CHR 0x22, CHR 0x27, CHR ''<'', CHR ''>'', CHR 0x60]"

text \<open>
  \<open>[^\s"'<>`]+?\.m3u8\<close>: the lazy repetition takes one character of the class, then as
  few more as it needs for \<open>.m3u8\<close> to follow. The result is the text matched and the rest.
\<close>

fun m3u8_body :: "string \<Rightarrow> (string \<times> string) option" where
  "m3u8_body [] = None"
| "m3u8_body (c # cs) =
     (if \<not> url_char c then None
      else if imatch ''.m3u8'' cs then Some (c # take 5 cs, drop 5 cs)
      else (case m3u8_body cs of None \<Rightarrow> None | Some (m, r) \<Rightarrow> Some (c # m, r)))"

text \<open>\<open>(?:\?[^\s"'<>`]*)?\<close>: greedy, so a query is taken whenever a \<open>?\<close> follows.\<close>

definition m3u8_query :: "string \<Rightarrow> string \<times> string" where
  "m3u8_query s =
     (case s of [] \<Rightarrow> ([], [])
      | c # cs \<Rightarrow> if c = CHR ''?'' then (c # takeWhile url_char cs, dropWhile url_char cs)
                 else ([], s))"

text \<open>\<open>://\<close>, the body and the query, after the scheme.\<close>

definition m3u8_after_scheme :: "string \<Rightarrow> (string \<times> string) option" where
  "m3u8_after_scheme s =
     (if prefix ''://'' s then
        (case m3u8_body (drop 3 s) of
           None \<Rightarrow> None
         | Some (m, r) \<Rightarrow> (case m3u8_query r of (q, r') \<Rightarrow> Some (''://'' @ m @ q, r')))
      else None)"

text \<open>
  A match starting at the first character of \<open>s\<close>. \<open>s?\<close> is greedy: the branch with the
  \<open>s\<close> is tried first, the branch without it when that one fails.
\<close>

definition m3u8_match_at :: "string \<Rightarrow> (string \<times> string) option" where
  "m3u8_match_at s =
     (if imatch ''http'' s then
        (let r = drop 4 s;
             with_s = (if imatch ''s'' r
                       then map_option (\<lambda>(m, r'). (take 5 s @ m, r')) (m3u8_after_scheme (drop 1 r))
                       else None)
         in case with_s of
              Some x \<Rightarrow> Some x
            | None \<Rightarrow> map_option (\<lambda>(m, r'). (take 4 s @ m, r')) (m3u8_after_scheme r))
      else None)"

text \<open>\<open>M3U8_RE.search(text)\<close>: the match at the leftmost position that has one.\<close>

fun m3u8_search :: "string \<Rightarrow> (string \<times> string) option" where
  "m3u8_search [] = None"
| "m3u8_search (c # cs) =
     (case m3u8_match_at (c # cs) of Some x \<Rightarrow> Some x | None \<Rightarrow> m3u8_search cs)"

section \<open>Pages, the network and the library\<close>

datatype error = ValueError

record anchor =
  a_href :: string
  a_text :: string
  a_text_sep :: string
  a_markup :: string

record media =
  m_src :: string
  m_title :: string
  m_alt :: string

record iframe =
  f_src :: string
  f_title :: string
  f_name :: string

text \<open>
  What the program reads of a fetched page: the response text and, of the parsed
  document, the \<open>a\<close> elements with an \<open>href\<close> (\<open>a_text\<close> is \<open>get_text(strip=True)\<close>,
  \<open>a_text_sep\<close> is \<open>get_text(" ", strip=True)\<close>, \<open>a_markup\<close> is \<open>str(a)\<close>), the
  \<open>source\<close> and \<open>video\<close> elements with a \<open>src\<close>, the \<open>iframe\<close> elements with a \<open>src\<close>,
  the text of the first \<open>h1\<close> and of the \<open>title\<close> element, and the \<open>content\<close> of the
  first \<open>meta\<close> element with \<open>property="og:title"\<close> and with \<open>name="og:title"\<close>
  (\<open>None\<close>: no such element). An attribute or element that is absent reads as the empty
  string where the program only tests it for truth.
\<close>

record page =
  html_text :: string
  h1_text :: string
  og_property :: "string option"
  og_name :: "string option"
  title_text :: string
  anchors :: "anchor list"
  medias :: "media list"
  iframes :: "iframe list"

text \<open>
  The collaborators outside the repository: \<open>respond log url\<close> is what \<open>SESSION.get\<close>
  and the parser give for \<open>url\<close> after the requests \<open>log\<close> (\<open>None\<close>: any exception inside
  \<open>fetch\<close>); \<open>replace_charref\<close> is \<open>html._replace_charref\<close>, which reads the entity tables
  of the library; \<open>bracketed_host_ok\<close> tells whether \<open>urllib.parse._check_bracketed_host\<close>
  returns (it raises \<open>ValueError\<close> otherwise); \<open>timestamp\<close> is
  \<open>datetime.utcnow().strftime("%Y-%m-%d %H:%M UTC")\<close> when the files are written.
\<close>

record env =
  respond :: "string list \<Rightarrow> string \<Rightarrow> page option"
  replace_charref :: "string \<Rightarrow> string"
  bracketed_host_ok :: "string \<Rightarrow> bool"
  timestamp :: string

section \<open>\<open>urllib.parse\<close>\<close>

record url_parts =
  u_scheme :: string
  u_netloc :: string
  u_path :: string
  u_params :: string
  u_query :: string
  u_fragment :: string

definition uses_relative :: "string list" where
  "uses_relative = ['''', ''ftp'', ''http'', ''gopher'', ''nntp'', ''imap'', ''wais'', ''file'',
     ''https'', ''shttp'', ''mms'', ''prospero'', ''rtsp'', ''rtsps'', ''rtspu'', ''sftp'',
     ''svn'', ''svn+ssh'', ''ws'', ''wss'']"

definition uses_netloc :: "string list" where
  "uses_netloc = ['''', ''ftp'', ''http'', ''gopher'', ''nntp'', ''telnet'', ''imap'', ''wais'',
     ''file'', ''mms'', ''https'', ''shttp'', ''snews'', ''prospero'', ''rtsp'', ''rtsps'',
     ''rtspu'', ''rsync'', ''svn'', ''svn+ssh'', ''sftp'', ''nfs'', ''git'', ''git+ssh'',
     ''ws'', ''wss'']"

definition uses_params :: "string list" where
  "uses_params = ['''', ''ftp'', ''hdl'', ''prospero'', ''http'', ''imap'', ''https'', ''shttp'',
     ''rtsp'', ''rtsps'', ''rtspu'', ''sip'', ''sips'', ''mms'', ''sftp'', ''tel'']"

definition scheme_char :: "char \<Rightarrow> bool" where
  "scheme_char c \<longleftrightarrow> ascii_alpha c \<or> is_digit c \<or> c \<in> set ''+-.''"

definition c0_or_space :: "char \<Rightarrow> bool" where
  "c0_or_space c \<longleftrightarrow> (of_char c :: nat) \<le> 32"

definition unsafe_byte :: "char \<Rightarrow> bool" where
  "unsafe_byte c \<longleftrightarrow> c \<in> set [CHR 0x09, CHR 0x0D, CHR 0x0A]"

text \<open>The scheme of \<open>url\<close>, when it has one, and the text after the colon.\<close>

definition split_scheme :: "string \<Rightarrow> string \<Rightarrow> string \<times> string" where
  "split_scheme dflt url =
     (case find_char CHR '':'' url of
        None \<Rightarrow> (dflt, url)
      | Some i \<Rightarrow>
          if 0 < i \<and> ascii_alpha (hd url) \<and> list_all scheme_char (take i url)
          then (lower (take i url), drop (Suc i) url)
          else (dflt, url))"

text \<open>\<open>_splitnetloc(url, 2)\<close>: the network location ends at the first of \<open>/ ? #\<close>.\<close>

definition splitnetloc :: "string \<Rightarrow> string \<times> string" where
  "splitnetloc url =
     (let r = drop 2 url
      in (takeWhile (\<lambda>c. c \<notin> set ''/?#'') r, dropWhile (\<lambda>c. c \<notin> set ''/?#'') r))"

definition bracketed_host :: "string \<Rightarrow> string" where
  "bracketed_host netloc =
     takeWhile (\<lambda>c. c \<noteq> CHR '']'') (drop 1 (dropWhile (\<lambda>c. c \<noteq> CHR ''['') netloc))"

definition split_fragment_query :: "string \<Rightarrow> string \<times> string \<times> string" where
  "split_fragment_query url =
     (let (url1, fragment) = (if CHR ''#'' \<in> set url then split_first CHR ''#'' url else (url, []));
          (url2, query) = (if CHR ''?'' \<in> set url1 then split_first CHR ''?'' url1 else (url1, []))
      in (url2, query, fragment))"

text \<open>
  \<open>urlsplit(url, scheme)\<close>; the result is scheme, netloc, path, query, fragment. On a
  network location whose code points are below 256, \<open>_checknetloc\<close> returns.
\<close>

definition urlsplit ::
  "env \<Rightarrow> string \<Rightarrow> string \<Rightarrow> error + (string \<times> string \<times> string \<times> string \<times> string)" where
  "urlsplit E url0 scheme0 =
     (let url1 = filter (\<lambda>c. \<not> unsafe_byte c) (dropWhile c0_or_space url0);
          scheme1 = filter (\<lambda>c. \<not> unsafe_byte c)
                      (rev (dropWhile c0_or_space (rev (dropWhile c0_or_space scheme0))));
          (scheme2, url2) = split_scheme scheme1 url1
      in if take 2 url2 = ''//'' then
           (let (netloc, url3) = splitnetloc url2
            in if (CHR ''['' \<in> set netloc \<and> CHR '']'' \<notin> set netloc)
                  \<or> (CHR '']'' \<in> set netloc \<and> CHR ''['' \<notin> set netloc)
               then Inl ValueError
               else if CHR ''['' \<in> set netloc \<and> CHR '']'' \<in> set netloc
                       \<and> \<not> bracketed_host_ok E (bracketed_host netloc)
               then Inl ValueError
               else (case split_fragment_query url3 of
                       (p, q, f) \<Rightarrow> Inr (scheme2, netloc, p, q, f)))
         else (case split_fragment_query url2 of (p, q, f) \<Rightarrow> Inr (scheme2, [], p, q, f)))"

text \<open>\<open>_splitparams(url)\<close>, called when \<open>url\<close> has a \<open>;\<close>.\<close>

definition splitparams :: "string \<Rightarrow> string \<times> string" where
  "splitparams url =
     (if CHR ''/'' \<in> set url then
        (let seg = rev (takeWhile (\<lambda>c. c \<noteq> CHR ''/'') (rev url));
             front = take (length url - length seg) url
         in if CHR '';'' \<in> set seg
            then (front @ takeWhile (\<lambda>c. c \<noteq> CHR '';'') seg,
                  drop 1 (dropWhile (\<lambda>c. c \<noteq> CHR '';'') seg))
            else (url, []))
      else split_first CHR '';'' url)"

definition urlparse :: "env \<Rightarrow> string \<Rightarrow> string \<Rightarrow> error + url_parts" where
  "urlparse E url scheme0 =
     (case urlsplit E url scheme0 of
        Inl e \<Rightarrow> Inl e
      | Inr (scheme, netloc, p, q, f) \<Rightarrow>
          (let (p', params) = (if scheme \<in> set uses_params \<and> CHR '';'' \<in> set p
                               then splitparams p else (p, []))
           in Inr \<lparr>u_scheme = scheme, u_netloc = netloc, u_path = p', u_params = params,
                    u_query = q, u_fragment = f\<rparr>))"

definition urlunsplit :: "string \<Rightarrow> string \<Rightarrow> string \<Rightarrow> string \<Rightarrow> string \<Rightarrow> string" where
  "urlunsplit scheme netloc url0 query fragment =
     (let url1 = (if netloc \<noteq> [] \<or> (scheme \<noteq> [] \<and> scheme \<in> set uses_netloc) \<or> take 2 url0 = ''//''
                  then ''//'' @ netloc @ (if url0 \<noteq> [] \<and> take 1 url0 \<noteq> ''/'' then ''/'' @ url0 else url0)
                  else url0);
          url2 = (if scheme \<noteq> [] then scheme @ '':'' @ url1 else url1);
          url3 = (if query \<noteq> [] then url2 @ ''?'' @ query else url2)
      in if fragment \<noteq> [] then url3 @ ''#'' @ fragment else url3)"

definition urlunparse :: "url_parts \<Rightarrow> string" where
  "urlunparse p =
     urlunsplit (u_scheme p) (u_netloc p)
       (if u_params p \<noteq> [] then u_path p @ '';'' @ u_params p else u_path p)
       (u_query p) (u_fragment p)"

text \<open>The loop of \<open>urljoin\<close> over the path segments: \<open>..\<close> pops, \<open>.\<close> is skipped.\<close>

fun resolve_segments :: "string list \<Rightarrow> string list \<Rightarrow> string list" where
  "resolve_segments acc [] = acc"
| "resolve_segments acc (seg # segs) =
     (if seg = ''..'' then resolve_segments (butlast acc) segs
      else if seg = ''.'' then resolve_segments acc segs
      else resolve_segments (acc @ [seg]) segs)"

text \<open>\<open>segments[1:-1] = filter(None, segments[1:-1])\<close>.\<close>

definition filter_inner :: "string list \<Rightarrow> string list" where
  "filter_inner segs =
     (if length segs < 2 then segs
      else hd segs # filter (\<lambda>s. s \<noteq> []) (butlast (tl segs)) @ [last segs])"

definition urljoin :: "env \<Rightarrow> string \<Rightarrow> string \<Rightarrow> error + string" where
  "urljoin E base url =
     (if base = [] then Inr url
      else if url = [] then Inr base
      else case urlparse E base [] of
        Inl e \<Rightarrow> Inl e
      | Inr b \<Rightarrow>
         (case urlparse E url (u_scheme b) of
            Inl e \<Rightarrow> Inl e
          | Inr u \<Rightarrow>
             if u_scheme u \<noteq> u_scheme b \<or> u_scheme u \<notin> set uses_relative then Inr url
             else if u_scheme u \<in> set uses_netloc \<and> u_netloc u \<noteq> [] then Inr (urlunparse u)
             else
               (let netloc = (if u_scheme u \<in> set uses_netloc then u_netloc b else u_netloc u)
                in if u_path u = [] \<and> u_params u = [] then
                     Inr (urlunparse (u\<lparr>u_netloc := netloc, u_path := u_path b,
                            u_params := u_params b,
                            u_query := (if u_query u = [] then u_query b else u_query u)\<rparr>))
                   else
                     (let base_parts0 = split_on CHR ''/'' (u_path b);
                          base_parts = (if last base_parts0 \<noteq> [] then butlast base_parts0
                                        else base_parts0);
                          segments = (if take 1 (u_path u) = ''/'' then split_on CHR ''/'' (u_path u)
                                      else filter_inner (base_parts @ split_on CHR ''/'' (u_path u)));
                          resolved0 = resolve_segments [] segments;
                          resolved = (if last segments = ''.'' \<or> last segments = ''..''
                                      then resolved0 @ [[]] else resolved0);
                          joined = join ''/'' resolved
                      in Inr (urlunparse (u\<lparr>u_netloc := netloc,
                                u_path := (if joined = [] then ''/'' else joined)\<rparr>))))))"

section \<open>\<open>extract_m3u8_from_text\<close>\<close>

text \<open>
  \<open>base\<close> is \<open>None\<close> or a string; \<open>None\<close> and the empty string are both false. The result
  is \<open>Inl ValueError\<close> when \<open>urlparse\<close> or \<open>urljoin\<close> raises, \<open>Inr None\<close> for the value
  \<open>None\<close>.
\<close>

definition truthy :: "string option \<Rightarrow> bool" where
  "truthy b \<longleftrightarrow> (case b of None \<Rightarrow> False | Some s \<Rightarrow> s \<noteq> [])"

definition extract_m3u8_from_text :: "env \<Rightarrow> string \<Rightarrow> string option \<Rightarrow> error + string option" where
  "extract_m3u8_from_text E text base =
     (if text = [] then Inr None
      else case m3u8_search text of
        None \<Rightarrow> Inr None
      | Some (m, rest) \<Rightarrow>
         (let url = (if prefix ''//'' m then ''https:'' @ m else m)
          in if truthy base then
               (case urlparse E url [] of
                  Inl e \<Rightarrow> Inl e
                | Inr p \<Rightarrow>
                    if u_scheme p = [] then
                      (case urljoin E (the base) url of Inl e \<Rightarrow> Inl e | Inr j \<Rightarrow> Inr (Some j))
                    else Inr (Some url))
             else Inr (Some url)))"

section \<open>\<open>html.unescape\<close>\<close>

text \<open>
  \<open>_charref = &(#[0-9]+;?|#[xX][0-9a-fA-F]+;?|[^\t\n\f <&#;]{1,32};?)\<close>.
  \<open>charref_at s\<close> is the group of a match whose \<open>&\<close> stands just before \<open>s\<close>, and the
  text after the match.
\<close>

definition hex_digit :: "char \<Rightarrow> bool" where
  "hex_digit c \<longleftrightarrow> is_digit c \<or> c \<in> set ''abcdefABCDEF''"

definition name_char :: "char \<Rightarrow> bool" where
  "name_char c \<longleftrightarrow> c \<notin> set [CHR 0x09, CHR 0x0A, CHR 0x0C, CHR '' '', CHR ''<'', CHR ''&'',
     CHR ''#'', CHR '';'']"

definition opt_semicolon :: "string \<Rightarrow> string \<times> string" where
  "opt_semicolon s = (case s of [] \<Rightarrow> ([], []) | c # cs \<Rightarrow> if c = CHR '';'' then ([c], cs) else ([], s))"

definition charref_at :: "string \<Rightarrow> (string \<times> string) option" where
  "charref_at s =
     (case s of
        [] \<Rightarrow> None
      | c # cs \<Rightarrow>
          if c = CHR ''#'' then
            (if takeWhile is_digit cs \<noteq> [] then
               (case opt_semicolon (dropWhile is_digit cs) of
                  (sc, r) \<Rightarrow> Some (c # takeWhile is_digit cs @ sc, r))
             else
               (case cs of
                  [] \<Rightarrow> None
                | x # xs \<Rightarrow>
                    if (x = CHR ''x'' \<or> x = CHR ''X'') \<and> takeWhile hex_digit xs \<noteq> [] then
                      (case opt_semicolon (dropWhile hex_digit xs) of
                         (sc, r) \<Rightarrow> Some (c # x # takeWhile hex_digit xs @ sc, r))
                    else None))
          else
            (let nm = take 32 (takeWhile name_char s)
             in if nm = [] then None
                else (case opt_semicolon (drop (length nm) s) of (sc, r) \<Rightarrow> Some (nm @ sc, r))))"

lemma charref_at_shorter: "charref_at s = Some (g, r) \<Longrightarrow> length r \<le> length s"
proof -
  have semi: "\<And>t sc r. opt_semicolon t = (sc, r) \<Longrightarrow> length r \<le> length t"
    by (auto simp: opt_semicolon_def split: list.splits if_splits)
  have dw: "\<And>P (t :: string). length (dropWhile P t) \<le> length t"
    by (simp add: length_dropWhile_le)
  assume "charref_at s = Some (g, r)"
  then show ?thesis
    unfolding charref_at_def Let_def
    by (auto split: list.splits if_splits prod.splits dest!: semi
        intro: le_trans[OF _ dw] le_SucI le_trans[OF _ dw, THEN le_SucI])
qed

text \<open>\<open>_charref.sub(_replace_charref, s)\<close>: the matches from left to right.\<close>

function charref_sub :: "(string \<Rightarrow> string) \<Rightarrow> string \<Rightarrow> string" where
  "charref_sub rc [] = []"
| "charref_sub rc (c # cs) =
     (if c = CHR ''&'' then
        (case charref_at cs of
           Some (g, r) \<Rightarrow> rc g @ charref_sub rc r
         | None \<Rightarrow> c # charref_sub rc cs)
      else c # charref_sub rc cs)"
  by pat_completeness auto
termination
  by (relation "measure (\<lambda>(rc, s). length s)") (auto dest: charref_at_shorter)

definition unescape :: "env \<Rightarrow> string \<Rightarrow> string" where
  "unescape E s = (if CHR ''&'' \<notin> set s then s else charref_sub (replace_charref E) s)"

section \<open>\<open>clean_event_title\<close>\<close>

text \<open>
  The patterns of the five \<open>re.sub\<close> calls have the form \<open>\s*SEP\s*WORD.*$\<close>.
  \<open>sep_word_at sep w s\<close>: \<open>\s*SEP\s*WORD\<close> matches at the start of \<open>s\<close> (\<open>WORD\<close> without
  regard to case). \<open>cut_at P t\<close> removes \<open>t\<close> from the leftmost position where \<open>P\<close> holds:
  this is \<open>re.sub\<close> with such a pattern on a text without line breaks, where \<open>.*$\<close>
  reaches the end of the text; the text has none after \<open>" ".join(t.split())\<close>.
\<close>

definition sep_word_at :: "char \<Rightarrow> string \<Rightarrow> string \<Rightarrow> bool" where
  "sep_word_at sep w s =
     (case dropWhile is_space s of
        [] \<Rightarrow> False
      | c # r \<Rightarrow> c = sep \<and> imatch w (dropWhile is_space r))"

fun cut_at :: "(string \<Rightarrow> bool) \<Rightarrow> string \<Rightarrow> string" where
  "cut_at P [] = []"
| "cut_at P (c # cs) = (if P (c # cs) then [] else c # cut_at P cs)"

definition clean_event_title :: "env \<Rightarrow> string \<Rightarrow> string" where
  "clean_event_title E raw_title =
     (if raw_title = [] then []
      else
        (let t0 = py_strip (unescape E raw_title);
             t1 = join '' '' (split_ws t0);
             t2 = cut_at (sep_word_at CHR ''-'' ''Roxiestreams'') t1;
             t3 = cut_at (sep_word_at CHR ''-'' ''Watch Live'') t2;
             t4 = cut_at (sep_word_at CHR ''-'' ''Watch'') t3;
             t5 = cut_at (sep_word_at CHR ''-'' ''Live Stream'') t4;
             t6 = cut_at (sep_word_at CHR ''|'' []) t5
         in strip_chars '' -,:'' t6))"

section \<open>Constants of the program\<close>

definition BASE_URL :: string where
  "BASE_URL = ''https://roxiestreams.live/''"

definition CATEGORIES :: "string list" where
  "CATEGORIES = ['''', ''soccer'', ''mlb'', ''nba'', ''nfl'', ''nhl'', ''fighting'', ''motorsports'',
     ''motogp'', ''ufc'', ''ppv'', ''wwe-streams'', ''f1'', ''f1-streams'', ''nascar'']"

definition USER_AGENT :: string where
  "USER_AGENT =
     ''Mozilla/5.0 (Windows NT 10.0; Win64; x64; rv:144.0) Gecko/20100101 Firefox/144.0''"

definition REFERER :: string where
  "REFERER = BASE_URL"

definition TV_INFO :: "(string \<times> string \<times> string \<times> string) list" where
  "TV_INFO =
     [(''soccer'', ''Soccer.Dummy.us'', ''https://i.postimg.cc/HsWHFvV0/Soccer.png'', ''Soccer''),
      (''mlb'', ''MLB.Baseball.Dummy.us'', ''https://i.postimg.cc/FsFmwC7K/Baseball3.png'', ''MLB''),
      (''nba'', ''NBA.Basketball.Dummy.us'', ''https://i.postimg.cc/jdqKB3LW/Basketball-2.png'', ''NBA''),
      (''nfl'', ''Football.Dummy.us'', ''https://i.postimg.cc/tRNpSGCq/Maxx.png'', ''NFL''),
      (''nhl'', ''NHL.Hockey.Dummy.us'',
         ''https://i.postimg.cc/mgMRQ7FR/nhl-logo-png-seeklogo-534236.png'', ''NHL''),
      (''fighting'', ''PPV.EVENTS.Dummy.us'', ''https://i.postimg.cc/8c4GjMnH/Combat-Sports.png'',
         ''Combat Sports''),
      (''motorsports'', ''Racing.Dummy.us'', ''https://i.postimg.cc/yY6B2pkv/F1.png'', ''Motorsports''),
      (''ufc'', ''UFC.Fight.Pass.Dummy.us'', ''https://i.postimg.cc/59Sb7W9D/Combat-Sports2.png'',
         ''UFC''),
      (''ppv'', ''PPV.EVENTS.Dummy.us'', ''https://i.postimg.cc/mkj4tC62/PPV.png'', ''PPV''),
      (''wwe-streams'', ''PPV.EVENTS.Dummy.us'', ''https://i.postimg.cc/wTxHn47J/WWE2.png'', ''WWE''),
      (''f1'', ''Racing.Dummy.us'', ''https://i.postimg.cc/yY6B2pkv/F1.png'', ''Formula 1''),
      (''f1-streams'', ''Racing.Dummy.us'', ''https://i.postimg.cc/yY6B2pkv/F1.png'', ''Formula 1''),
      (''nascar'', ''Racing.Dummy.us'', ''https://i.postimg.cc/m2dR43HV/Motorsports2.png'',
         ''NASCAR Cup Series''),
      (''misc'', ''Sports.Dummy.us'', ''https://i.postimg.cc/qMm0rc3L/247.png'', ''Random Events'')]"

section \<open>Effects and errors\<close>

text \<open>
  A function that can raise returns \<open>error + 'a\<close>. A function that fetches takes the log
  of the requests made so far and returns the log it leaves, also when it raises.
  \<open>a or b\<close> on strings is \<open>por a b\<close>.
\<close>

definition bind_err :: "error + 'a \<Rightarrow> ('a \<Rightarrow> error + 'b) \<Rightarrow> error + 'b" where
  "bind_err m f = (case m of Inl e \<Rightarrow> Inl e | Inr x \<Rightarrow> f x)"

fun fold_err :: "('a \<Rightarrow> 's \<Rightarrow> error + 's) \<Rightarrow> 'a list \<Rightarrow> 's \<Rightarrow> error + 's" where
  "fold_err f [] s = Inr s"
| "fold_err f (x # xs) s = (case f x s of Inl e \<Rightarrow> Inl e | Inr s' \<Rightarrow> fold_err f xs s')"

fun fold_io ::
  "('a \<Rightarrow> 's \<Rightarrow> string list \<Rightarrow> (error + 's) \<times> string list) \<Rightarrow> 'a list \<Rightarrow> 's \<Rightarrow> string list
     \<Rightarrow> (error + 's) \<times> string list" where
  "fold_io f [] s log = (Inr s, log)"
| "fold_io f (x # xs) s log =
     (case f x s log of
        (Inl e, log') \<Rightarrow> (Inl e, log')
      | (Inr s', log') \<Rightarrow> fold_io f xs s' log')"

definition por :: "string \<Rightarrow> string \<Rightarrow> string" where
  "por a b = (if a \<noteq> [] then a else b)"

text \<open>\<open>fetch(url)\<close>: the page, or \<open>None\<close> for \<open>(None, "")\<close>; the request is logged.\<close>

definition fetch :: "env \<Rightarrow> string \<Rightarrow> string list \<Rightarrow> page option \<times> string list" where
  "fetch E url log = (respond E log url, log @ [url])"

section \<open>\<open>derive_title_from_page\<close>\<close>

definition og_content :: "page \<Rightarrow> string" where
  "og_content pg =
     (case og_property pg of
        Some c \<Rightarrow> c
      | None \<Rightarrow> (case og_name pg of Some c \<Rightarrow> c | None \<Rightarrow> []))"

definition url_slug :: "string \<Rightarrow> string" where
  "url_slug path = map (\<lambda>c. if c = CHR ''-'' then CHR '' '' else c) (last (split_on CHR ''/'' path))"

definition derive_title_from_page :: "env \<Rightarrow> page option \<Rightarrow> string option \<Rightarrow> error + string" where
  "derive_title_from_page E soup fallback_url =
     (case soup of
        None \<Rightarrow> Inr []
      | Some pg \<Rightarrow>
          if h1_text pg \<noteq> [] then Inr (clean_event_title E (h1_text pg))
          else if og_content pg \<noteq> [] then Inr (clean_event_title E (og_content pg))
          else if title_text pg \<noteq> [] then Inr (clean_event_title E (title_text pg))
          else if truthy fallback_url then
            bind_err (urlparse E (the fallback_url) [])
              (\<lambda>p. let path = rstrip_chars ''/'' (u_path p)
                    in if path \<noteq> [] then Inr (clean_event_title E (url_slug path)) else Inr [])
          else Inr [])"

section \<open>\<open>get_event_m3u8\<close>\<close>

text \<open>
  The results found so far and the set \<open>seen\<close>. \<open>add_new title cand\<close> is the body of
  \<open>if cand not in seen\<close>.
\<close>

type_synonym found = "(string \<times> string) list \<times> string set"

definition add_new :: "string \<Rightarrow> string \<Rightarrow> found \<Rightarrow> found" where
  "add_new title cand acc =
     (if cand \<notin> snd acc then (fst acc @ [(title, cand)], insert cand (snd acc)) else acc)"

text \<open>1) the anchors of the event page.\<close>

definition scan_anchor :: "env \<Rightarrow> string \<Rightarrow> string \<Rightarrow> anchor \<Rightarrow> found \<Rightarrow> error + found" where
  "scan_anchor E event_url base_title a acc =
     bind_err (extract_m3u8_from_text E (py_strip (a_href a)) (Some event_url))
       (\<lambda>c1. bind_err (if truthy c1 then Inr c1
                        else extract_m3u8_from_text E (a_markup a) (Some event_url))
          (\<lambda>cand. if truthy cand then
                     (let c = py_strip (the cand);
                          c' = (if prefix ''//'' c then ''https:'' @ c else c)
                      in Inr (add_new (clean_event_title E (por (a_text a) (por base_title c'))) c' acc))
                   else Inr acc))"

text \<open>2) the \<open>source\<close> and \<open>video\<close> elements of the event page.\<close>

definition scan_media :: "env \<Rightarrow> string \<Rightarrow> string \<Rightarrow> media \<Rightarrow> found \<Rightarrow> error + found" where
  "scan_media E event_url base_title tag acc =
     bind_err (extract_m3u8_from_text E (py_strip (m_src tag)) (Some event_url))
       (\<lambda>cand. if truthy cand then
                  Inr (add_new (clean_event_title E
                         (por (m_title tag) (por (m_alt tag) (por base_title (the cand)))))
                       (the cand) acc)
                else Inr acc)"

text \<open>The anchors and media elements inside the document of an iframe.\<close>

definition scan_iframe_anchor :: "env \<Rightarrow> string \<Rightarrow> string \<Rightarrow> anchor \<Rightarrow> found \<Rightarrow> error + found" where
  "scan_iframe_anchor E iframe_url base_title a acc =
     bind_err (extract_m3u8_from_text E (a_href a) (Some iframe_url))
       (\<lambda>cand. if truthy cand then
                  Inr (add_new (clean_event_title E (por (a_text a) (por base_title (the cand))))
                       (the cand) acc)
                else Inr acc)"

definition scan_iframe_media :: "env \<Rightarrow> string \<Rightarrow> string \<Rightarrow> media \<Rightarrow> found \<Rightarrow> error + found" where
  "scan_iframe_media E iframe_url base_title tag acc =
     bind_err (extract_m3u8_from_text E (m_src tag) (Some iframe_url))
       (\<lambda>cand. if truthy cand then
                  Inr (add_new (clean_event_title E
                         (por (m_title tag) (por (m_alt tag) (por base_title (the cand)))))
                       (the cand) acc)
                else Inr acc)"

text \<open>
  3) one iframe of the event page: its document is fetched and searched; the \<open>iframe\<close>
  elements of that document are not read.
\<close>

definition scan_iframe ::
  "env \<Rightarrow> string \<Rightarrow> string \<Rightarrow> iframe \<Rightarrow> found \<Rightarrow> string list \<Rightarrow> (error + found) \<times> string list" where
  "scan_iframe E event_url base_title fr acc log =
     (case urljoin E event_url (py_strip (f_src fr)) of
        Inl e \<Rightarrow> (Inl e, log)
      | Inr iframe_url \<Rightarrow>
          (case fetch E iframe_url log of
             (None, log') \<Rightarrow> (Inr acc, log')
           | (Some doc, log') \<Rightarrow>
               if html_text doc = [] then (Inr acc, log')
               else
                 (bind_err (extract_m3u8_from_text E (html_text doc) (Some iframe_url))
                    (\<lambda>cand.
                       bind_err
                         (fold_err (scan_iframe_anchor E iframe_url base_title) (anchors doc)
                            (if truthy cand then
                               add_new (clean_event_title E
                                   (por (f_title fr) (por (f_name fr) (por base_title (the cand)))))
                                 (the cand) acc
                             else acc))
                         (fold_err (scan_iframe_media E iframe_url base_title) (medias doc))),
                  log')))"

text \<open>4) the text of the event page.\<close>

definition scan_page_text :: "env \<Rightarrow> string \<Rightarrow> string \<Rightarrow> string \<Rightarrow> found \<Rightarrow> error + found" where
  "scan_page_text E event_url base_title html acc =
     bind_err (extract_m3u8_from_text E html (Some event_url))
       (\<lambda>cand. if truthy cand then Inr (add_new (por base_title (the cand)) (the cand) acc)
                else Inr acc)"

text \<open>The final normalization of one result.\<close>

definition finalize_one :: "env \<Rightarrow> page \<Rightarrow> string \<Rightarrow> string \<times> string \<Rightarrow> found \<Rightarrow> error + found" where
  "finalize_one E soup event_url tu acc =
     (case tu of
        (t, u0) \<Rightarrow>
          if u0 = [] then Inr acc
          else
            (let u1 = py_strip u0;
                 u2 = (if prefix ''//'' u1 then ''https:'' @ u1 else u1)
             in bind_err (urlparse E u2 [])
                  (\<lambda>p. bind_err (if u_scheme p = [] then urljoin E event_url u2 else Inr u2)
                     (\<lambda>u. if u \<in> snd acc then Inr acc
                           else
                             bind_err
                               (if clean_event_title E t = [] then
                                  bind_err (derive_title_from_page E (Some soup) (Some event_url))
                                    (\<lambda>d. Inr (por d u))
                                else Inr (clean_event_title E t))
                               (\<lambda>title. Inr (fst acc @ [(title, u)], insert u (snd acc)))))))"

text \<open>The event page once fetched: the four scans and the final normalization.\<close>

definition resolve_page ::
  "env \<Rightarrow> string \<Rightarrow> string \<Rightarrow> page \<Rightarrow> string list \<Rightarrow> (error + (string \<times> string) list) \<times> string list" where
  "resolve_page E event_url anchor_text soup log =
     (case (if anchor_text \<noteq> [] \<and> clean_event_title E anchor_text \<noteq> []
            then Inr (clean_event_title E anchor_text)
            else derive_title_from_page E (Some soup) (Some event_url)) of
        Inl e \<Rightarrow> (Inl e, log)
      | Inr base_title \<Rightarrow>
          (case bind_err (fold_err (scan_anchor E event_url base_title) (anchors soup) ([], {}))
                  (fold_err (scan_media E event_url base_title) (medias soup)) of
             Inl e \<Rightarrow> (Inl e, log)
           | Inr acc2 \<Rightarrow>
               (case fold_io (scan_iframe E event_url base_title) (iframes soup) acc2 log of
                  (Inl e, log') \<Rightarrow> (Inl e, log')
                | (Inr acc3, log') \<Rightarrow>
                    (bind_err (scan_page_text E event_url base_title (html_text soup) acc3)
                       (\<lambda>acc4. bind_err (fold_err (finalize_one E soup event_url) (fst acc4) ([], {}))
                                  (\<lambda>final. Inr (fst final))),
                     log'))))"

definition get_event_m3u8 ::
  "env \<Rightarrow> string \<Rightarrow> string \<Rightarrow> string list \<Rightarrow> (error + (string \<times> string) list) \<times> string list" where
  "get_event_m3u8 E event_href anchor_text log =
     (if event_href = [] then (Inr [], log)
      else
        (case (if prefix ''http'' event_href then Inr event_href else urljoin E BASE_URL event_href) of
           Inl e \<Rightarrow> (Inl e, log)
         | Inr event_url \<Rightarrow>
             (case extract_m3u8_from_text E event_href (Some event_url) of
                Inl e \<Rightarrow> (Inl e, log)
              | Inr direct \<Rightarrow>
                  if truthy direct then
                    (bind_err (derive_title_from_page E None (Some event_url))
                       (\<lambda>d. Inr [(clean_event_title E (por anchor_text (por d (the direct))),
                                   the direct)]),
                     log)
                  else
                    (case fetch E event_url log of
                       (None, log') \<Rightarrow> (Inr [], log')
                     | (Some soup, log') \<Rightarrow> resolve_page E event_url anchor_text soup log'))))"

section \<open>\<open>get_category_event_candidates\<close>\<close>

text \<open>\<open>M3U8_RE.findall(text)\<close>: the matches from left to right, each search starting where
  the match before it ended.\<close>

lemma m3u8_body_shorter: "m3u8_body s = Some (m, r) \<Longrightarrow> length r < length s"
  by (induction s arbitrary: m) (auto split: if_splits option.splits)

lemma m3u8_after_scheme_shorter: "m3u8_after_scheme s = Some (m, r) \<Longrightarrow> length r < length s"
proof -
  have q: "\<And>t q r. m3u8_query t = (q, r) \<Longrightarrow> length r \<le> length t"
    by (auto simp: m3u8_query_def split: list.splits if_splits
        intro: le_SucI length_dropWhile_le)
  assume "m3u8_after_scheme s = Some (m, r)"
  then obtain m1 r1 q1 where "m3u8_body (drop 3 s) = Some (m1, r1)" "m3u8_query r1 = (q1, r)"
    by (auto simp: m3u8_after_scheme_def split: if_splits option.splits prod.splits)
  then have "length r1 < length (drop 3 s)" "length r \<le> length r1"
    using m3u8_body_shorter q by blast+
  then show ?thesis by simp
qed

lemma m3u8_match_at_shorter: "m3u8_match_at s = Some (m, r) \<Longrightarrow> length r < length s"
  by (auto simp: m3u8_match_at_def Let_def split: if_splits option.splits
      dest!: m3u8_after_scheme_shorter)

lemma m3u8_search_shorter: "m3u8_search s = Some (m, r) \<Longrightarrow> length r < length s"
proof (induction s)
  case Nil
  then show ?case by simp
next
  case (Cons c cs)
  then show ?case
    by (cases "m3u8_match_at (c # cs)") (auto dest: m3u8_match_at_shorter)
qed

function m3u8_findall :: "string \<Rightarrow> string list" where
  "m3u8_findall s = (case m3u8_search s of None \<Rightarrow> [] | Some (m, r) \<Rightarrow> m # m3u8_findall r)"
  by pat_completeness auto
termination
  by (relation "measure length") (auto dest: m3u8_search_shorter)

text \<open>
  \<open>re.search(r"-\d+$", low)\<close>: a hyphen and then digits up to the end of the text, or up
  to a line feed that ends the text.
\<close>

definition ends_dash_digits :: "string \<Rightarrow> bool" where
  "ends_dash_digits s \<longleftrightarrow>
     takeWhile is_digit (rev s) \<noteq> []
     \<and> (case dropWhile is_digit (rev s) of [] \<Rightarrow> False | c # r \<Rightarrow> c = CHR ''-'')"

definition dash_digits_search :: "string \<Rightarrow> bool" where
  "dash_digits_search s \<longleftrightarrow>
     ends_dash_digits s \<or> (s \<noteq> [] \<and> last s = CHR 0x0A \<and> ends_dash_digits (butlast s))"

definition looks_like_event :: "string \<Rightarrow> bool" where
  "looks_like_event href \<longleftrightarrow>
     contains ''.m3u8'' href
     \<or> list_ex (\<lambda>k. contains k (lower href)) [''stream'', ''streams'', ''match'', ''game'', ''event'']
     \<or> dash_digits_search (lower href)"

type_synonym candidates = "(string \<times> string) list \<times> string set"

definition candidate_of_anchor :: "env \<Rightarrow> string \<Rightarrow> anchor \<Rightarrow> candidates \<Rightarrow> error + candidates" where
  "candidate_of_anchor E cat_url a acc =
     (let href = py_strip (a_href a);
          text = a_text_sep a
      in if href = [] \<or> prefix ''mailto:'' href \<or> prefix ''javascript:'' href then Inr acc
         else
           bind_err (if prefix ''http'' href then Inr href else urljoin E cat_url href)
             (\<lambda>full. if looks_like_event href \<and> full \<notin> snd acc
                      then Inr (fst acc @ [(py_strip text, full)], insert full (snd acc))
                      else Inr acc))"

definition candidate_of_match :: "string \<Rightarrow> candidates \<Rightarrow> candidates" where
  "candidate_of_match m acc =
     (if m \<noteq> [] \<and> m \<notin> snd acc then (fst acc @ [([], m)], insert m (snd acc)) else acc)"

definition get_category_event_candidates ::
  "env \<Rightarrow> string \<Rightarrow> string list \<Rightarrow> (error + (string \<times> string) list) \<times> string list" where
  "get_category_event_candidates E category_path log =
     (case (if category_path = [] then Inr BASE_URL else urljoin E BASE_URL category_path) of
        Inl e \<Rightarrow> (Inl e, log)
      | Inr cat_url \<Rightarrow>
          (case fetch E cat_url log of
             (None, log') \<Rightarrow> (Inr [], log')
           | (Some soup, log') \<Rightarrow>
               (bind_err (fold_err (candidate_of_anchor E cat_url) (anchors soup) ([], {}))
                  (\<lambda>acc. if fst acc = []
                          then Inr (fst (fold candidate_of_match (m3u8_findall (html_text soup)) acc))
                          else Inr (fst acc)),
                log')))"

section \<open>\<open>get_tv_data_for_category\<close> and \<open>write_playlists\<close>\<close>

definition get_tv_data_for_category :: "string \<Rightarrow> string \<times> string \<times> string" where
  "get_tv_data_for_category cat_path =
     (let key0 = py_strip (lower (por cat_path ''misc''));
          key = remove_sub ''streams'' (remove_sub ''-streams'' key0)
      in case map_of TV_INFO key of
           Some info \<Rightarrow> info
         | None \<Rightarrow>
             (case find (\<lambda>(k, info). contains k key) TV_INFO of
                Some (k, info) \<Rightarrow> info
              | None \<Rightarrow> the (map_of TV_INFO ''misc'')))"

text \<open>
  \<open>quote(s, safe="")\<close>: the UTF-8 bytes of \<open>s\<close>, each kept when it is a letter, a digit or
  one of \<open>_.-~\<close>, and written \<open>%XX\<close> otherwise.
\<close>

definition hex_char :: "nat \<Rightarrow> char" where
  "hex_char n = ''0123456789ABCDEF'' ! (n mod 16)"

definition utf8_bytes :: "char \<Rightarrow> nat list" where
  "utf8_bytes c =
     (let n = (of_char c :: nat) in if n < 128 then [n] else [192 + n div 64, 128 + n mod 64])"

definition quote_byte :: "nat \<Rightarrow> string" where
  "quote_byte n =
     (if ascii_alpha (char_of n) \<or> is_digit (char_of n) \<or> char_of n \<in> set ''_.-~''
      then [char_of n]
      else [CHR ''%'', hex_char (n div 16), hex_char n])"

definition quote :: "string \<Rightarrow> string" where
  "quote s = concat (map quote_byte (concat (map utf8_bytes s)))"

type_synonym stream = "string \<times> string \<times> string"

definition playlist_header :: "string \<Rightarrow> string" where
  "playlist_header ts =
     ''#EXTM3U x-tvg-url='' @ [CHR 0x22]
       @ ''https://epgshare01.online/epgshare01/epg_ripper_ALL_SOURCES1.xml.gz'' @ [CHR 0x22, CHR 0x0A]
       @ ''# Last Updated: '' @ ts @ [CHR 0x0A, CHR 0x0A]"

definition extinf_line :: "stream \<Rightarrow> string" where
  "extinf_line s =
     (case s of
        (cat_name, ev_name, url) \<Rightarrow>
          (case get_tv_data_for_category cat_name of
             (tvg_id, logo, group_name) \<Rightarrow>
               ''#EXTINF:-1 tvg-logo='' @ [CHR 0x22] @ logo @ [CHR 0x22]
                 @ '' tvg-id='' @ [CHR 0x22] @ tvg_id @ [CHR 0x22]
                 @ '' group-title='' @ [CHR 0x22] @ ''Roxiestreams - '' @ group_name @ [CHR 0x22]
                 @ '','' @ ev_name @ [CHR 0x0A]))"

definition vlc_entry :: "stream \<Rightarrow> string" where
  "vlc_entry s = extinf_line s @ snd (snd s) @ [CHR 0x0A, CHR 0x0A]"

definition tivimate_entry :: "stream \<Rightarrow> string" where
  "tivimate_entry s =
     extinf_line s @ snd (snd s) @ ''|referer='' @ REFERER @ ''|user-agent='' @ quote USER_AGENT
       @ [CHR 0x0A, CHR 0x0A]"

text \<open>
  \<open>write_playlists(streams)\<close>: the text written to \<open>Roxiestreams_VLC.m3u8\<close> and to
  \<open>Roxiestreams_TiviMate.m3u8\<close>; \<open>ts\<close> is the timestamp as \<open>strftime\<close> formats it.
\<close>

definition write_playlists :: "string \<Rightarrow> stream list \<Rightarrow> string \<times> string" where
  "write_playlists ts streams =
     (playlist_header ts @ concat (map vlc_entry streams),
      playlist_header ts @ concat (map tivimate_entry streams))"

section \<open>\<open>main\<close>\<close>

text \<open>\<open>str.title\<close> on a text of ASCII letters and other characters that have no case, as
  the categories are.\<close>

definition upper_char :: "char \<Rightarrow> char" where
  "upper_char c = (if ascii_lower c then char_of ((of_char c :: nat) - 32) else c)"

fun title_from :: "bool \<Rightarrow> string \<Rightarrow> string" where
  "title_from prev_cased [] = []"
| "title_from prev_cased (c # cs) =
     (if prev_cased then lower_char c else upper_char c) # title_from (ascii_alpha c) cs"

definition py_title :: "string \<Rightarrow> string" where
  "py_title s = title_from False s"

text \<open>
  The state of the run: \<open>all_streams\<close> and \<open>seen_urls\<close> are the variables of \<open>main\<close>.
  \<open>offered\<close> is a history of every record that reached the test against \<open>seen_urls\<close>, in
  the order of the run; the program has no such variable and nothing reads it.
\<close>

record run_state =
  all_streams :: "stream list"
  seen_urls :: "string set"
  offered :: "stream list"

definition emit :: "stream \<Rightarrow> run_state \<Rightarrow> run_state" where
  "emit s st =
     (if snd (snd s) \<in> seen_urls st then st\<lparr>offered := offered st @ [s]\<rparr>
      else st\<lparr>all_streams := all_streams st @ [s],
               seen_urls := insert (snd (snd s)) (seen_urls st),
               offered := offered st @ [s]\<rparr>)"

definition display_name :: "string \<Rightarrow> string \<Rightarrow> string" where
  "display_name cat title = py_title (por cat ''Roxiestreams'') @ '' - '' @ title"

text \<open>A candidate whose \<open>href\<close> has \<open>.m3u8\<close> in it.\<close>

definition take_direct :: "env \<Rightarrow> string \<Rightarrow> string \<Rightarrow> string \<Rightarrow> run_state \<Rightarrow> error + run_state" where
  "take_direct E cat anchor_text href st =
     bind_err (extract_m3u8_from_text E href (Some href))
       (\<lambda>x. let clean = (if truthy x then the x else href)
             in if clean \<noteq> [] then
                  bind_err (derive_title_from_page E None (Some href))
                    (\<lambda>d. Inr (emit (por cat ''misc'',
                                     display_name cat (por (clean_event_title E anchor_text) (por d clean)),
                                     clean) st))
                else Inr st)"

text \<open>One result of \<open>get_event_m3u8\<close> for a candidate.\<close>

definition take_found ::
  "env \<Rightarrow> string \<Rightarrow> string \<Rightarrow> string \<Rightarrow> string \<times> string \<Rightarrow> run_state \<Rightarrow> error + run_state" where
  "take_found E cat anchor_text href ev st =
     (case ev of
        (ev_title, ev_url) \<Rightarrow>
          if ev_url = [] \<or> \<not> contains ''.m3u8'' ev_url then Inr st
          else
            bind_err (extract_m3u8_from_text E ev_url (Some href))
              (\<lambda>x. let clean = (if truthy x then the x else ev_url)
                    in if clean = [] then Inr st
                       else
                         bind_err (derive_title_from_page E None (Some href))
                           (\<lambda>d. Inr (emit (por cat ''misc'',
                                            display_name cat
                                              (clean_event_title E
                                                 (por ev_title (por anchor_text (por d clean)))),
                                            clean) st))))"

definition process_candidate ::
  "env \<Rightarrow> string \<Rightarrow> string \<times> string \<Rightarrow> run_state \<Rightarrow> string list \<Rightarrow> (error + run_state) \<times> string list" where
  "process_candidate E cat cand st log =
     (case cand of
        (anchor_text, href) \<Rightarrow>
          if contains ''.m3u8'' href then (take_direct E cat anchor_text href st, log)
          else
            (case get_event_m3u8 E href anchor_text log of
               (Inl e, log') \<Rightarrow> (Inl e, log')
             | (Inr found, log') \<Rightarrow> (fold_err (take_found E cat anchor_text href) found st, log')))"

text \<open>One category: an exception inside \<open>get_category_event_candidates\<close> is caught and the
  category is skipped.\<close>

definition process_category ::
  "env \<Rightarrow> string \<Rightarrow> run_state \<Rightarrow> string list \<Rightarrow> (error + run_state) \<times> string list" where
  "process_category E cat st log =
     (case get_category_event_candidates E cat log of
        (Inl e, log') \<Rightarrow> (Inr st, log')
      | (Inr cands, log') \<Rightarrow> fold_io (process_candidate E cat) cands st log')"

definition collect_streams :: "env \<Rightarrow> string list \<Rightarrow> (error + run_state) \<times> string list" where
  "collect_streams E log =
     fold_io (process_category E) CATEGORIES
       \<lparr>all_streams = [], seen_urls = {}, offered = []\<rparr> log"

text \<open>
  \<open>main()\<close>: the records accumulated and the two files written, or the exception that
  ended the run before anything was written.
\<close>

definition main :: "env \<Rightarrow> string list \<Rightarrow> (error + stream list \<times> string \<times> string) \<times> string list" where
  "main E log =
     (case collect_streams E log of
        (Inl e, log') \<Rightarrow> (Inl e, log')
      | (Inr st, log') \<Rightarrow>
          (Inr (all_streams st, write_playlists (timestamp E) (all_streams st)), log'))"

text \<open>
  Texts in which white space is single blanks, and such texts that neither start nor end
  with a blank: the form of a title after \<open>" ".join(t.split())\<close>.
\<close>

definition single_spaced :: "string \<Rightarrow> bool" where
  "single_spaced s \<longleftrightarrow> (\<forall>c\<in>set s. is_space c \<longrightarrow> c = CHR '' '') \<and> \<not> sublist ''  '' s"

definition tidy :: "string \<Rightarrow> bool" where
  "tidy s \<longleftrightarrow> single_spaced s \<and> (s \<noteq> [] \<longrightarrow> hd s \<noteq> CHR '' '' \<and> last s \<noteq> CHR '' '')"

text \<open>
  An environment for the closed examples: every request fails, every bracketed host is
  rejected, the clock reads the first minute of 2025, and the character references \<open>amp\<close>, \<open>lt\<close>, \<open>gt\<close> and \<open>quot\<close> are replaced as
  the library replaces them; any other reference is left as it stands.
\<close>

definition xml_charref :: "string \<Rightarrow> string" where
  "xml_charref g =
     (if g = ''amp;'' \<or> g = ''amp'' then ''&''
      else if g = ''lt;'' \<or> g = ''lt'' then ''<''
      else if g = ''gt;'' \<or> g = ''gt'' then ''>''
      else if g = ''quot;'' \<or> g = ''quot'' then [CHR 0x22]
      else CHR ''&'' # g)"

definition offline :: env where
  "offline = \<lparr>respond = (\<lambda>log url. None), replace_charref = xml_charref,
     bracketed_host_ok = (\<lambda>h. False), timestamp = ''2025-01-01 00:00 UTC''\<rparr>"

definition empty_page :: page where
  "empty_page = \<lparr>html_text = [], h1_text = [], og_property = None, og_name = None,
     title_text = [], anchors = [], medias = [], iframes = []\<rparr>"

definition link :: "string \<Rightarrow> string \<Rightarrow> anchor" where
  "link href txt = \<lparr>a_href = href, a_text = txt, a_text_sep = txt, a_markup = []\<rparr>"

text \<open>The site on which every URL of \<open>pages\<close> answers with its page, whenever it is asked,
  and every other request fails.\<close>

definition site :: "(string \<times> page) list \<Rightarrow> env" where
  "site pages = offline\<lparr>respond := (\<lambda>log url. map_of pages url)\<rparr>"

section \<open>Notions of the specification\<close>

text \<open>The URL of a record.\<close>

definition manifest_url :: "stream \<Rightarrow> string" where
  "manifest_url s = snd (snd s)"

text \<open>Global deduplication in the words of the specification: of the records with the
  same manifest URL, the first one is kept.\<close>

fun first_by_url :: "stream list \<Rightarrow> stream list" where
  "first_by_url [] = []"
| "first_by_url (s # ss) =
     s # first_by_url (filter (\<lambda>t. manifest_url t \<noteq> manifest_url s) ss)"

text \<open>The form of a text that \<open>M3U8_RE\<close> matches as a whole.\<close>

definition manifest_form :: "string \<Rightarrow> bool" where
  "manifest_form u \<longleftrightarrow>
     (\<exists>sch b ext q. u = sch @ ''://'' @ b @ ext @ q
        \<and> (lower sch = ''http'' \<or> lower sch = ''https'')
        \<and> b \<noteq> [] \<and> list_all url_char b
        \<and> lower ext = ''.m3u8''
        \<and> (q = [] \<or> (\<exists>q'. q = CHR ''?'' # q' \<and> list_all url_char q')))"

text \<open>The network of \<open>E\<close> in which every document fetched after the request made at the
  log \<open>log0\<close> has lost its \<open>iframe\<close> elements.\<close>

definition without_nested_iframes :: "env \<Rightarrow> string list \<Rightarrow> env" where
  "without_nested_iframes E log0 =
     E\<lparr>respond := (\<lambda>log url. if log = log0 then respond E log url
                               else map_option (\<lambda>d. d\<lparr>iframes := []\<rparr>) (respond E log url))\<rparr>"

text \<open>Sites for the closed examples.\<close>

definition frame :: "string \<Rightarrow> iframe" where
  "frame src = \<lparr>f_src = src, f_title = [], f_name = []\<rparr>"

definition nested_site :: env where
  "nested_site = site
     [(''https://roxiestreams.live/event/1'',
         empty_page\<lparr>html_text := ''<iframe src=/embed/1>'', iframes := [frame ''/embed/1'']\<rparr>),
      (''https://roxiestreams.live/embed/1'',
         empty_page\<lparr>html_text := ''<iframe src=/embed/2>'', iframes := [frame ''/embed/2'']\<rparr>),
      (''https://roxiestreams.live/embed/2'',
         empty_page\<lparr>html_text := ''file: https://cdn.example/deep.m3u8''\<rparr>)]"

definition direct_link_site :: env where
  "direct_link_site = site
     [(BASE_URL,
         empty_page\<lparr>html_text := ''<a href=/live/123-match.m3u8></a>'',
                      anchors := [link ''/live/123-match.m3u8'' []]\<rparr>)]"


definition two_category_site :: env where
  "two_category_site = site
     [(BASE_URL,
         empty_page\<lparr>html_text := ''root'', anchors := [link ''/live/1.m3u8'' ''First'']\<rparr>),
      (''https://roxiestreams.live/soccer'',
         empty_page\<lparr>html_text := ''soccer'',
                      anchors := [link ''/live/1.m3u8'' ''Second'', link ''/event/match-7'' ''Big Match'']\<rparr>),
      (''https://roxiestreams.live/event/match-7'',
         empty_page\<lparr>html_text := ''player https://cdn.example/2.m3u8?x=1 '',
                      medias := [\<lparr>m_src = ''https://cdn.example/2.m3u8?x=1'', m_title = [], m_alt = []\<rparr>]\<rparr>)]"

section \<open>The invariant of the run\<close>

text \<open>
  What holds of the state of \<open>main\<close> between two steps: the records kept are the first
  ones by URL of the records offered, \<open>seen_urls\<close> holds the URLs offered, and every URL
  offered is a match of the manifest pattern or a URL with \<open>.m3u8\<close> in it in which the
  pattern matches nowhere.
\<close>

definition run_inv :: "run_state \<Rightarrow> bool" where
  "run_inv st \<longleftrightarrow> all_streams st = first_by_url (offered st)
      \<and> seen_urls st = manifest_url ` set (offered st)
      \<and> (\<forall>s\<in>set (offered st). manifest_form (manifest_url s)
            \<or> (contains ''.m3u8'' (manifest_url s) \<and> m3u8_search (manifest_url s) = None))"

section \<open>Properties\<close>

subsection \<open>Letters and schemes\<close>

lemma lower_char_ascii_lower:
  assumes "lower_char c = d" "ascii_lower d"
  shows "ascii_alpha c"
proof (cases "lower_char c = c")
  case True
  with assms show ?thesis by (simp add: ascii_alpha_def)
next
  case False
  define n where "n = (of_char c :: nat)"
  from False have rng: "(65 \<le> n \<and> n \<le> 90) \<or> (192 \<le> n \<and> n \<le> 222 \<and> n \<noteq> 215)"
    and l: "lower_char c = char_of (n + 32)"
    by (auto simp: lower_char_def Let_def n_def split: if_splits)
  from l assms(1) have "of_char d = (of_char (char_of (n + 32) :: char) :: nat)" by simp
  also have "\<dots> = (n + 32) mod 256" by (simp only: of_char_of)
  also have "\<dots> = n + 32" using rng by auto
  finally have d: "(of_char d :: nat) = n + 32" .
  with assms(2) rng have "65 \<le> n \<and> n \<le> 90" by (auto simp: ascii_lower_def)
  then show ?thesis by (simp add: ascii_alpha_def ascii_upper_def n_def)
qed

lemma lower_eq_alpha:
  "lower s = w \<Longrightarrow> list_all ascii_lower w \<Longrightarrow> list_all ascii_alpha s"
  by (induction s arbitrary: w) (auto simp: lower_def lower_char_ascii_lower)

lemma alpha_range: "ascii_alpha c \<Longrightarrow> 65 \<le> (of_char c :: nat)"
  by (auto simp: ascii_alpha_def ascii_upper_def ascii_lower_def)

lemma alpha_not_colon: "ascii_alpha c \<Longrightarrow> c \<noteq> CHR '':''"
  using alpha_range[of c] by (cases "c = CHR '':''") simp_all

lemma alpha_not_slash: "ascii_alpha c \<Longrightarrow> c \<noteq> CHR ''/''"
  using alpha_range[of c] by (cases "c = CHR ''/''") simp_all

lemma alpha_not_c0: "ascii_alpha c \<Longrightarrow> \<not> c0_or_space c"
  using alpha_range[of c] by (simp add: c0_or_space_def)

lemma alpha_not_unsafe: "ascii_alpha c \<Longrightarrow> \<not> unsafe_byte c"
proof
  assume a: "ascii_alpha c" and "unsafe_byte c"
  then have "c = CHR 0x09 \<or> c = CHR 0x0D \<or> c = CHR 0x0A" by (simp add: unsafe_byte_def)
  then have "(of_char c :: nat) \<le> 13" by auto
  with alpha_range[OF a] show False by simp
qed

lemma alpha_scheme_char: "ascii_alpha c \<Longrightarrow> scheme_char c"
  by (simp add: scheme_char_def)

lemma find_char_append:
  "d \<notin> set xs \<Longrightarrow> find_char d (xs @ d # ys) = Some (length xs)"
  by (induction xs) auto

lemma http_lower: "list_all ascii_lower ''http''" "list_all ascii_lower ''https''"
  by (simp_all add: ascii_lower_def)

lemma split_scheme_http:
  assumes "lower sch = ''http'' \<or> lower sch = ''https''"
  shows "split_scheme d (filter (\<lambda>c. \<not> unsafe_byte c) (dropWhile c0_or_space (sch @ ''://'' @ t)))
         = (lower sch, ''//'' @ filter (\<lambda>c. \<not> unsafe_byte c) t)"
proof -
  from assms have al: "list_all ascii_alpha sch"
    using lower_eq_alpha http_lower by blast
  from assms have ne: "sch \<noteq> []" by (auto simp: lower_def)
  then obtain c cs where sch: "sch = c # cs" by (cases sch) auto
  with al have c: "ascii_alpha c" by simp
  have 1: "dropWhile c0_or_space (sch @ ''://'' @ t) = sch @ ''://'' @ t"
    using sch alpha_not_c0[OF c] by simp
  have 2: "filter (\<lambda>c. \<not> unsafe_byte c) sch = sch"
    using al by (auto simp: filter_id_conv list_all_iff alpha_not_unsafe)
  have 3: "\<not> unsafe_byte CHR '':''" "\<not> unsafe_byte CHR ''/''" by (simp_all add: unsafe_byte_def)
  have 4: "CHR '':'' \<notin> set sch" using al alpha_not_colon by (auto simp: list_all_iff)
  let ?rest = "''//'' @ filter (\<lambda>c. \<not> unsafe_byte c) t"
  have 5: "filter (\<lambda>c. \<not> unsafe_byte c) (sch @ ''://'' @ t) = sch @ CHR '':'' # ?rest"
    using 2 3 by simp
  have 6: "find_char CHR '':'' (sch @ CHR '':'' # ?rest) = Some (length sch)"
    using 4 by (rule find_char_append)
  have 7: "list_all scheme_char sch" using al by (auto simp: list_all_iff alpha_scheme_char)
  have 8: "hd (sch @ CHR '':'' # ?rest) = c" using sch by simp
  show ?thesis
    unfolding split_scheme_def 1 5 6
    using ne 7 8 c by simp
qed

lemma urlsplit_http:
  assumes "lower sch = ''http'' \<or> lower sch = ''https''"
  shows "urlsplit E (sch @ ''://'' @ t) d = Inl ValueError
       \<or> (\<exists>n p q f. urlsplit E (sch @ ''://'' @ t) d = Inr (lower sch, n, p, q, f))"
proof -
  define u2 where "u2 = ''//'' @ filter (\<lambda>c. \<not> unsafe_byte c) t"
  obtain netloc u3 where sn: "splitnetloc u2 = (netloc, u3)" by (cases "splitnetloc u2") auto
  obtain p q f where fq: "split_fragment_query u3 = (p, q, f)"
    by (cases "split_fragment_query u3") auto
  have t2: "take 2 u2 = ''//''" by (simp add: u2_def)
  have "urlsplit E (sch @ ''://'' @ t) d =
     (if (CHR ''['' \<in> set netloc \<and> CHR '']'' \<notin> set netloc)
          \<or> (CHR '']'' \<in> set netloc \<and> CHR ''['' \<notin> set netloc) then Inl ValueError
      else if CHR ''['' \<in> set netloc \<and> CHR '']'' \<in> set netloc
                \<and> \<not> bracketed_host_ok E (bracketed_host netloc) then Inl ValueError
      else Inr (lower sch, netloc, p, q, f))"
    unfolding urlsplit_def Let_def split_scheme_http[OF assms] u2_def[symmetric]
    by (simp only: prod.case t2 sn fq if_True refl simp_thms)
  then show ?thesis by (simp split: if_splits)
qed

lemma urlparse_http:
  assumes "lower sch = ''http'' \<or> lower sch = ''https''"
  shows "urlparse E (sch @ ''://'' @ t) d = Inl ValueError
       \<or> (\<exists>p. urlparse E (sch @ ''://'' @ t) d = Inr p \<and> u_scheme p = lower sch)"
  using urlsplit_http[OF assms, of E t d]
  by (auto simp: urlparse_def Let_def split: prod.splits)

subsection \<open>Matches of the manifest pattern\<close>

lemma imatch_take:
  "imatch w s \<Longrightarrow> length w = n \<Longrightarrow> lower (take n s) = lower w \<and> s = take n s @ drop n s"
  by (auto simp: imatch_def)

lemma lower_literals:
  "lower ''http'' = ''http''" "lower ''s'' = ''s''" "lower ''.m3u8'' = ''.m3u8''"
  by (simp_all add: lower_def lower_char_def)

lemma m3u8_body_form:
  "m3u8_body s = Some (m, r) \<Longrightarrow>
     s = m @ r \<and> (\<exists>b ext. m = b @ ext \<and> b \<noteq> [] \<and> list_all url_char b \<and> lower ext = ''.m3u8'')"
proof (induction s arbitrary: m r)
  case Nil then show ?case by simp
next
  case (Cons c cs)
  show ?case
  proof (cases "imatch ''.m3u8'' cs")
    case True
    with Cons.prems have uc: "url_char c" and m: "m = c # take 5 cs" and r: "r = drop 5 cs"
      by (auto split: if_splits)
    from True have "lower (take 5 cs) = ''.m3u8''"
      using imatch_take[of "''.m3u8''" cs 5] by (simp add: lower_literals)
    with uc m r show ?thesis by (intro conjI exI[of _ "[c]"] exI[of _ "take 5 cs"]) auto
  next
    case False
    with Cons.prems obtain m' where uc: "url_char c" and b: "m3u8_body cs = Some (m', r)" and m: "m = c # m'"
      by (auto split: if_splits option.splits)
    from Cons.IH[OF b] obtain b' ext where "cs = m' @ r" "m' = b' @ ext" "b' \<noteq> []" "list_all url_char b'" "lower ext = ''.m3u8''"
      by auto
    with uc m show ?thesis by (intro conjI exI[of _ "c # b'"] exI[of _ ext]) auto
  qed
qed

lemma m3u8_query_form:
  "m3u8_query r = (q, r') \<Longrightarrow>
     r = q @ r' \<and> (q = [] \<or> (\<exists>q'. q = CHR ''?'' # q' \<and> list_all url_char q'))"
  by (auto simp: m3u8_query_def list_all_iff split: list.splits if_splits dest: set_takeWhileD)

lemma m3u8_after_scheme_form:
  assumes "m3u8_after_scheme s = Some (m, r)"
  shows "s = m @ r \<and> (\<exists>b ext q. m = ''://'' @ b @ ext @ q \<and> b \<noteq> [] \<and> list_all url_char b
           \<and> lower ext = ''.m3u8''
           \<and> (q = [] \<or> (\<exists>q'. q = CHR ''?'' # q' \<and> list_all url_char q')))"
proof -
  from assms obtain m1 r1 q where p: "prefix ''://'' s" and b: "m3u8_body (drop 3 s) = Some (m1, r1)"
    and qq: "m3u8_query r1 = (q, r)" and m: "m = ''://'' @ m1 @ q"
    by (auto simp: m3u8_after_scheme_def split: if_splits option.splits prod.splits)
  from p have s: "s = ''://'' @ drop 3 s" by (auto simp: prefix_def)
  from m3u8_body_form[OF b] obtain b' ext where 1: "drop 3 s = m1 @ r1" "m1 = b' @ ext" "b' \<noteq> []"
     "list_all url_char b'" "lower ext = ''.m3u8''" by auto
  from m3u8_query_form[OF qq] have 2: "r1 = q @ r" "q = [] \<or> (\<exists>q'. q = CHR ''?'' # q' \<and> list_all url_char q')"
    by auto
  have "s = m @ r" using s 1(1) 2(1) m by (metis append.assoc)
  moreover have "m = ''://'' @ b' @ ext @ q" using m 1(2) by simp
  ultimately show ?thesis using 1 2 by blast
qed

lemma m3u8_match_at_form:
  assumes "m3u8_match_at s = Some (m, r)"
  shows "s = m @ r \<and> (\<exists>sch b ext q. m = sch @ ''://'' @ b @ ext @ q
           \<and> (lower sch = ''http'' \<or> lower sch = ''https'')
           \<and> b \<noteq> [] \<and> list_all url_char b \<and> lower ext = ''.m3u8''
           \<and> (q = [] \<or> (\<exists>q'. q = CHR ''?'' # q' \<and> list_all url_char q')))"
proof -
  from assms have h: "imatch ''http'' s"
    by (auto simp: m3u8_match_at_def split: if_splits)
  then have h4: "lower (take 4 s) = ''http''" and s4: "s = take 4 s @ drop 4 s"
    using imatch_take[of "''http''" s 4] by (simp_all add: lower_literals)
  consider (with_s) m' where "imatch ''s'' (drop 4 s)" "m3u8_after_scheme (drop 1 (drop 4 s)) = Some (m', r)" "m = take 5 s @ m'"
    | (without) m' where "m3u8_after_scheme (drop 4 s) = Some (m', r)" "m = take 4 s @ m'"
    using assms h by (auto simp: m3u8_match_at_def Let_def split: if_splits option.splits)
  then show ?thesis
  proof cases
    case with_s
    from with_s(1) have "lower (take 1 (drop 4 s)) = ''s''" and d: "drop 4 s = take 1 (drop 4 s) @ drop 1 (drop 4 s)"
      using imatch_take[of "''s''" "drop 4 s" 1] by (simp_all add: lower_literals)
    moreover have t5: "take 5 s = take 4 s @ take 1 (drop 4 s)"
      using take_add[of 4 1 s] by simp
    ultimately have l5: "lower (take 5 s) = ''https''" using h4 by (simp add: lower_def)
    have s5: "s = take 5 s @ drop 5 s" by simp
    from m3u8_after_scheme_form[OF with_s(2)] obtain b ext q where
      f: "drop 5 s = m' @ r" "m' = ''://'' @ b @ ext @ q" "b \<noteq> []" "list_all url_char b"
        "lower ext = ''.m3u8''" "q = [] \<or> (\<exists>q'. q = CHR ''?'' # q' \<and> list_all url_char q')"
      by auto
    have "s = m @ r" using s5 f(1) with_s(3) by (metis append.assoc)
    moreover have "m = take 5 s @ ''://'' @ b @ ext @ q" using with_s(3) f(2) by simp
    ultimately show ?thesis using l5 f by blast
  next
    case without
    from m3u8_after_scheme_form[OF without(1)] obtain b ext q where
      f: "drop 4 s = m' @ r" "m' = ''://'' @ b @ ext @ q" "b \<noteq> []" "list_all url_char b"
        "lower ext = ''.m3u8''" "q = [] \<or> (\<exists>q'. q = CHR ''?'' # q' \<and> list_all url_char q')"
      by auto
    have "s = m @ r" using s4 f(1) without(2) by (metis append.assoc)
    moreover have "m = take 4 s @ ''://'' @ b @ ext @ q" using without(2) f(2) by simp
    ultimately show ?thesis using h4 f by blast
  qed
qed

lemma m3u8_search_leftmost:
  "m3u8_search tx = Some (m, r) \<Longrightarrow>
     \<exists>pre. tx = pre @ m @ r \<and> m3u8_match_at (m @ r) = Some (m, r)
       \<and> (\<forall>i<length pre. m3u8_match_at (drop i tx) = None)"
proof (induction tx)
  case Nil then show ?case by simp
next
  case (Cons c cs)
  show ?case
  proof (cases "m3u8_match_at (c # cs)")
    case (Some x)
    with Cons.prems have x: "m3u8_match_at (c # cs) = Some (m, r)" by simp
    with m3u8_match_at_form[OF x] show ?thesis by (intro exI[of _ "[]"]) auto
  next
    case None
    with Cons.prems have "m3u8_search cs = Some (m, r)" by simp
    from Cons.IH[OF this] obtain pre where p: "cs = pre @ m @ r" "m3u8_match_at (m @ r) = Some (m, r)"
      "\<forall>i<length pre. m3u8_match_at (drop i cs) = None" by auto
    have "\<forall>i<length (c # pre). m3u8_match_at (drop i (c # cs)) = None"
      using None p(3) by (auto simp: less_Suc_eq_0_disj)
    with p show ?thesis by (intro exI[of _ "c # pre"]) auto
  qed
qed

lemma match_not_protocol_relative:
  assumes "lower sch = ''http'' \<or> lower sch = ''https''"
  shows "\<not> prefix ''//'' (sch @ t)"
proof -
  from assms have al: "list_all ascii_alpha sch"
    using lower_eq_alpha http_lower by blast
  from assms obtain c cs where sch: "sch = c # cs" by (cases sch) (auto simp: lower_def)
  with al have "c \<noteq> CHR ''/''" using alpha_not_slash by auto
  with sch show ?thesis by (simp add: prefix_def)
qed

lemma extract_no_match:
  "m3u8_search tx = None \<Longrightarrow> extract_m3u8_from_text E tx base = Inr None"
  by (simp add: extract_m3u8_from_text_def)

lemma extract_match:
  assumes "m3u8_search tx = Some (m, r)"
  shows "extract_m3u8_from_text E tx base =
     (if truthy base \<and> urlparse E m [] = Inl ValueError then Inl ValueError else Inr (Some m))"
proof -
  from m3u8_search_leftmost[OF assms] have ma: "m3u8_match_at (m @ r) = Some (m, r)" by auto
  from m3u8_match_at_form[OF ma] obtain sch t where
    m: "m = sch @ ''://'' @ t" and sch: "lower sch = ''http'' \<or> lower sch = ''https''"
    by auto
  have np: "\<not> prefix ''//'' m" unfolding m by (rule match_not_protocol_relative[OF sch])
  from assms have ne: "tx \<noteq> []" by auto
  from sch have sne: "lower sch \<noteq> []" by auto
  from urlparse_http[OF sch, of E t "[]"] show ?thesis
    unfolding extract_m3u8_from_text_def Let_def m[symmetric]
    using assms np ne sne by (auto split: sum.splits)
qed

subsection \<open>What \<open>extract_m3u8_from_text\<close> returns\<close>





text \<open>
  C2. The claim: for a protocol-relative input \<open>//host/path.m3u8\<close>, with or without a
  query string, \<open>extract_m3u8_from_text\<close> returns the URL rewritten to \<open>https://\<close>.
  The program does not: \<open>M3U8_RE\<close> starts with \<open>http\<close>, so it matches nowhere in such a
  text and the result is \<open>None\<close>, for every \<open>base\<close>; the rewrite under the comment
  \<open>fix protocol-relative\<close> is never reached.
\<close>

theorem extract_protocol_relative_is_none:
  "extract_m3u8_from_text E ''//host/path.m3u8'' base = Inr None
   \<and> extract_m3u8_from_text E ''//host/path.m3u8?token=1'' base = Inr None"
  by (simp add: extract_m3u8_from_text_def m3u8_match_at_def imatch_def lower_def lower_char_def)

subsection \<open>The \<open>base\<close> argument\<close>




subsection \<open>Titles: white space\<close>

lemma space_is_space [simp]: "is_space CHR '' ''"
  by (simp add: is_space_def)

lemma single_spaced_Cons:
  "single_spaced (c # cs) \<longleftrightarrow>
     (is_space c \<longrightarrow> c = CHR '' '' \<and> (cs \<noteq> [] \<longrightarrow> hd cs \<noteq> CHR '' '')) \<and> single_spaced cs"
  by (cases cs) (auto simp: single_spaced_def sublist_Cons_right prefix_Cons)

lemma single_spaced_Nil: "single_spaced []"
  by (simp add: single_spaced_def)

lemma single_spaced_sublist: "sublist u s \<Longrightarrow> single_spaced s \<Longrightarrow> single_spaced u"
  unfolding single_spaced_def
  by (meson set_mono_sublist subsetD sublist_order.order.trans)

lemma split_ws_aux_no_empty: "[] \<notin> set (split_ws_aux w s)"
  by (induction s arbitrary: w) auto

lemma join_nonempty: "ws \<noteq> [] \<Longrightarrow> [] \<notin> set ws \<Longrightarrow> join sep ws \<noteq> []"
  by (induction sep ws rule: join.induct) auto

lemma join_Cons: "join sep (w # ws) = (if ws = [] then w else w @ sep @ join sep ws)"
  by (cases ws) auto

lemma join_split_tidy_aux:
  assumes "\<forall>c\<in>set w. \<not> is_space c" "single_spaced s" "s \<noteq> [] \<longrightarrow> last s \<noteq> CHR '' ''"
    "w = [] \<longrightarrow> s = [] \<or> hd s \<noteq> CHR '' ''"
  shows "join '' '' (split_ws_aux w s) = w @ s"
  using assms
proof (induction s arbitrary: w)
  case Nil
  then show ?case by simp
next
  case (Cons c cs)
  show ?case
  proof (cases "is_space c")
    case True
    with Cons.prems have c: "c = CHR '' ''" and cs: "cs \<noteq> []" "hd cs \<noteq> CHR '' ''" and w: "w \<noteq> []"
      and ss: "single_spaced cs"
      by (auto simp: single_spaced_Cons)
    have "join '' '' (split_ws_aux [] cs) = [] @ cs"
      using Cons.prems cs ss by (intro Cons.IH) auto
    moreover from this cs have "split_ws_aux [] cs \<noteq> []" by auto
    ultimately show ?thesis using True w c by (simp add: join_Cons)
  next
    case False
    have "join '' '' (split_ws_aux (w @ [c]) cs) = (w @ [c]) @ cs"
      using Cons.prems False by (intro Cons.IH) (auto simp: single_spaced_Cons)
    then show ?thesis using False by simp
  qed
qed

lemma join_split_tidy: "tidy s \<Longrightarrow> join '' '' (split_ws s) = s"
  using join_split_tidy_aux[of "[]" s] by (auto simp: tidy_def split_ws_def)

lemma single_spaced_append_space:
  assumes "\<forall>c\<in>set w. \<not> is_space c" "w \<noteq> []" "tidy r" "r \<noteq> []"
  shows "tidy (w @ CHR '' '' # r)"
  using assms
proof (induction w)
  case Nil then show ?case by simp
next
  case (Cons c w)
  show ?case
  proof (cases "w = []")
    case True
    with Cons.prems show ?thesis
      by (auto simp: tidy_def single_spaced_Cons)
  next
    case False
    with Cons have "tidy (w @ CHR '' '' # r)" by auto
    with Cons.prems False show ?thesis
      by (auto simp: tidy_def single_spaced_Cons hd_append)
  qed
qed

lemma tidy_no_space: "\<forall>c\<in>set w. \<not> is_space c \<Longrightarrow> tidy w"
proof (induction w)
  case Nil then show ?case by (simp add: tidy_def single_spaced_Nil)
next
  case (Cons c w)
  then show ?case using space_is_space
    by (auto simp: tidy_def single_spaced_Cons)
qed

lemma tidy_join_split_aux:
  "\<forall>c\<in>set w. \<not> is_space c \<Longrightarrow> tidy (join '' '' (split_ws_aux w s))"
proof (induction s arbitrary: w)
  case Nil
  then show ?case by (auto simp: tidy_no_space)
next
  case (Cons c cs)
  show ?case
  proof (cases "is_space c")
    case True
    show ?thesis
    proof (cases "w = [] \<or> split_ws_aux [] cs = []")
      case True
      with \<open>is_space c\<close> Cons show ?thesis by (auto simp: tidy_no_space join_Cons)
    next
      case False
      have t: "tidy (join '' '' (split_ws_aux [] cs))" by (rule Cons.IH) simp
      have ne: "join '' '' (split_ws_aux [] cs) \<noteq> []"
        using False split_ws_aux_no_empty[of "[]" cs] by (intro join_nonempty) auto
      show ?thesis using \<open>is_space c\<close> False Cons.prems t ne
        by (simp add: join_Cons single_spaced_append_space)
    qed
  next
    case False
    with Cons show ?thesis by auto
  qed
qed

lemma tidy_collapse: "tidy (join '' '' (split_ws s))"
  by (simp add: split_ws_def tidy_join_split_aux)

subsection \<open>Titles: the suffix rules\<close>

lemma cut_at_take: "cut_at P s = take (length (cut_at P s)) s"
  by (induction s) auto

lemma cut_at_sublist: "sublist (cut_at P s) s"
  by (subst cut_at_take) (rule sublist_take)

lemma cut_at_id_iff: "cut_at P s = s \<longleftrightarrow> (\<forall>n<length s. \<not> P (drop n s))"
proof (induction s)
  case Nil then show ?case by simp
next
  case (Cons c cs)
  have "(\<forall>n<Suc (length cs). \<not> P (drop n (c # cs))) \<longleftrightarrow>
        \<not> P (c # cs) \<and> (\<forall>n<length cs. \<not> P (drop n cs))"
    by (auto simp: less_Suc_eq_0_disj)
  with Cons show ?case by auto
qed

lemma nomatch_take:
  assumes mono: "\<And>u v. P u \<Longrightarrow> P (u @ v)" and nm: "\<forall>n<length s. \<not> P (drop n s)"
  shows "\<forall>n<length (take k s). \<not> P (drop n (take k s))"
proof (intro allI impI notI)
  fix n assume n: "n < length (take k s)" and p: "P (drop n (take k s))"
  from p have "P (drop n (take k s) @ drop k s)" by (rule mono)
  moreover from n have "drop n (take k s) @ drop k s = drop n s"
    by (metis append_take_drop_id drop_append length_take less_imp_le_nat diff_is_0_eq drop_0)
  ultimately show False using nm n by auto
qed

lemma nomatch_drop:
  assumes nm: "\<forall>n<length s. \<not> P (drop n s)"
  shows "\<forall>n<length (drop k s). \<not> P (drop n (drop k s))"
  using nm by (auto simp: add.commute)

lemma nomatch_cut:
  assumes mono: "\<And>u v. P u \<Longrightarrow> P (u @ v)"
  shows "\<forall>n<length (cut_at P s). \<not> P (drop n (cut_at P s))"
proof -
  have "cut_at P (cut_at P s) = cut_at P s"
  proof (induction s)
    case Nil then show ?case by simp
  next
    case (Cons c cs)
    show ?case
    proof (cases "P (c # cs)")
      case True then show ?thesis by simp
    next
      case False
      have "\<not> P (c # cut_at P cs)"
      proof
        assume "P (c # cut_at P cs)"
        then have "P ((c # cut_at P cs) @ drop (length (cut_at P cs)) cs)" by (rule mono)
        moreover have "cut_at P cs @ drop (length (cut_at P cs)) cs = cs"
          by (subst (1) cut_at_take) simp
        ultimately show False using False by simp
      qed
      with False Cons show ?thesis by simp
    qed
  qed
  then show ?thesis by (simp add: cut_at_id_iff)
qed

lemma nomatch_cut_other:
  assumes mono: "\<And>u v. P u \<Longrightarrow> P (u @ v)" and nm: "\<forall>n<length s. \<not> P (drop n s)"
  shows "\<forall>n<length (cut_at Q s). \<not> P (drop n (cut_at Q s))"
  by (subst (1 2) cut_at_take) (rule nomatch_take[OF mono nm])

lemma strip_chars_take_drop:
  "\<exists>k j. strip_chars cs s = take k (drop j s)"
proof -
  let ?Q = "\<lambda>c. c \<in> set cs"
  have a: "dropWhile ?Q s = drop (length (takeWhile ?Q s)) s"
    by (simp add: dropWhile_eq_drop)
  have b: "\<And>t. rev (dropWhile ?Q (rev t)) = take (length t - length (takeWhile ?Q (rev t))) t"
    by (simp add: dropWhile_eq_drop rev_drop)
  show ?thesis unfolding strip_chars_def using a b by metis
qed

lemma nomatch_strip:
  assumes mono: "\<And>u v. P u \<Longrightarrow> P (u @ v)" and nm: "\<forall>n<length s. \<not> P (drop n s)"
  shows "\<forall>n<length (strip_chars cs s). \<not> P (drop n (strip_chars cs s))"
proof -
  obtain k j where e: "strip_chars cs s = take k (drop j s)"
    using strip_chars_take_drop by blast
  show ?thesis unfolding e
    by (rule nomatch_take[OF mono nomatch_drop[OF nm]])
qed

lemma strip_chars_sublist: "sublist (strip_chars cs s) s"
proof -
  obtain k j where e: "strip_chars cs s = take k (drop j s)"
    using strip_chars_take_drop by blast
  show ?thesis unfolding e
    by (meson sublist_drop sublist_take sublist_order.order.trans)
qed

lemma strip_chars_ends:
  assumes "strip_chars cs s \<noteq> []"
  shows "hd (strip_chars cs s) \<notin> set cs" "last (strip_chars cs s) \<notin> set cs"
proof -
  let ?Q = "\<lambda>c. c \<in> set cs"
  let ?d = "dropWhile ?Q s"
  from assms have ne: "dropWhile ?Q (rev ?d) \<noteq> []" by (simp add: strip_chars_def)
  then have "\<not> ?Q (hd (dropWhile ?Q (rev ?d)))" by (rule hd_dropWhile)
  then show "last (strip_chars cs s) \<notin> set cs"
    using ne by (simp add: strip_chars_def last_rev)
  from ne have dne: "?d \<noteq> []" by (metis dropWhile.simps(1) rev.simps(1))
  then have h: "\<not> ?Q (hd ?d)" by (rule hd_dropWhile)
  obtain k where k: "rev (dropWhile ?Q (rev ?d)) = take k ?d"
    by (metis dropWhile_eq_drop rev_drop rev_rev_ident)
  with assms have "hd (strip_chars cs s) = hd ?d"
    by (auto simp: strip_chars_def hd_take)
  with h show "hd (strip_chars cs s) \<notin> set cs" by simp
qed

lemma strip_chars_id:
  assumes "s = [] \<or> (hd s \<notin> set cs \<and> last s \<notin> set cs)"
  shows "strip_chars cs s = s"
proof (cases "s = []")
  case True then show ?thesis by (simp add: strip_chars_def)
next
  case False
  with assms have h: "hd s \<notin> set cs" and l: "last s \<notin> set cs" by auto
  from h False have 1: "dropWhile (\<lambda>c. c \<in> set cs) s = s" by (cases s) auto
  from l False have 2: "dropWhile (\<lambda>c. c \<in> set cs) (rev s) = rev s"
    by (cases "rev s") (auto simp: last_rev hd_rev)
  show ?thesis by (simp add: strip_chars_def 1 2)
qed

lemma py_strip_tidy: "tidy s \<Longrightarrow> py_strip s = s"
proof (cases "s = []")
  case True then show ?thesis by (simp add: py_strip_def)
next
  case False
  assume t: "tidy s"
  with False have h: "\<not> is_space (hd s)" and l: "\<not> is_space (last s)"
    by (auto simp: tidy_def single_spaced_def dest: hd_in_set last_in_set)
  from h False have 1: "dropWhile is_space s = s" by (cases s) auto
  from l False have 2: "dropWhile is_space (rev s) = rev s" by (cases "rev s") (auto simp: last_rev hd_rev)
  show ?thesis by (simp add: py_strip_def 1 2)
qed

lemma sep_word_at_mono: "sep_word_at sep w u \<Longrightarrow> sep_word_at sep w (u @ v)"
proof -
  have im: "\<And>a b. imatch w a \<Longrightarrow> imatch w (a @ b)"
    by (auto simp: imatch_def)
  have dw: "\<And>a b. dropWhile is_space a \<noteq> [] \<Longrightarrow> dropWhile is_space (a @ b) = dropWhile is_space a @ b"
    by (metis dropWhile_append1 dropWhile_eq_Nil_conv)
  assume a: "sep_word_at sep w u"
  then obtain c r where 1: "dropWhile is_space u = c # r" "c = sep" "imatch w (dropWhile is_space r)"
    by (auto simp: sep_word_at_def split: list.splits)
  then have 2: "dropWhile is_space (u @ v) = c # (r @ v)" using dw[of u v] by simp
  have "imatch w (dropWhile is_space (r @ v))"
  proof (cases "dropWhile is_space r = []")
    case True
    with 1 have "w = []" by (auto simp: imatch_def)
    then show ?thesis by (simp add: imatch_def)
  next
    case False
    then show ?thesis using dw[of r v] im 1 by simp
  qed
  with 2 1 show ?thesis by (simp add: sep_word_at_def)
qed

lemma clean_fixed_point:
  assumes t: "tidy r"
    and e: "r = [] \<or> (hd r \<notin> set '' -,:'' \<and> last r \<notin> set '' -,:'')"
    and n: "\<And>sep w. (sep, w) \<in> {(CHR ''-'', ''Roxiestreams''), (CHR ''-'', ''Watch Live''),
                   (CHR ''-'', ''Watch''), (CHR ''-'', ''Live Stream''), (CHR ''|'', [])}
              \<Longrightarrow> \<forall>n<length r. \<not> sep_word_at sep w (drop n r)"
    and u: "unescape E r = r"
  shows "clean_event_title E r = r"
proof -
  have c: "\<And>sep w. (sep, w) \<in> {(CHR ''-'', ''Roxiestreams''), (CHR ''-'', ''Watch Live''),
                   (CHR ''-'', ''Watch''), (CHR ''-'', ''Live Stream''), (CHR ''|'', [])}
            \<Longrightarrow> cut_at (sep_word_at sep w) r = r"
    by (subst cut_at_id_iff) (rule n)
  show ?thesis
    unfolding clean_event_title_def Let_def
    by (simp add: u py_strip_tidy[OF t] join_split_tidy[OF t] c strip_chars_id[OF e])
qed

lemma clean_result_props:
  assumes "(sep, w) \<in> {(CHR ''-'', ''Roxiestreams''), (CHR ''-'', ''Watch Live''),
                   (CHR ''-'', ''Watch''), (CHR ''-'', ''Live Stream''), (CHR ''|'', [])}"
  shows "\<forall>n<length (clean_event_title E x). \<not> sep_word_at sep w (drop n (clean_event_title E x))"
proof (cases "x = []")
  case True then show ?thesis by (simp add: clean_event_title_def)
next
  case False
  define t1 where "t1 = join '' '' (split_ws (py_strip (unescape E x)))"
  define t2 where "t2 = cut_at (sep_word_at CHR ''-'' ''Roxiestreams'') t1"
  define t3 where "t3 = cut_at (sep_word_at CHR ''-'' ''Watch Live'') t2"
  define t4 where "t4 = cut_at (sep_word_at CHR ''-'' ''Watch'') t3"
  define t5 where "t5 = cut_at (sep_word_at CHR ''-'' ''Live Stream'') t4"
  define t6 where "t6 = cut_at (sep_word_at CHR ''|'' []) t5"
  have r: "clean_event_title E x = strip_chars '' -,:'' t6"
    using False by (simp add: clean_event_title_def Let_def t1_def t2_def t3_def t4_def t5_def t6_def)
  have cut: "\<And>sep w s. \<forall>n<length (cut_at (sep_word_at sep w) s).
      \<not> sep_word_at sep w (drop n (cut_at (sep_word_at sep w) s))"
    by (rule nomatch_cut[of "sep_word_at sep w" for sep w, OF sep_word_at_mono])
  have other: "\<And>sep w Q s. \<forall>n<length s. \<not> sep_word_at sep w (drop n s)
      \<Longrightarrow> \<forall>n<length (cut_at Q s). \<not> sep_word_at sep w (drop n (cut_at Q s))"
    by (rule nomatch_cut_other[of "sep_word_at sep w" for sep w, OF sep_word_at_mono])
  have n2: "\<forall>n<length t2. \<not> sep_word_at CHR ''-'' ''Roxiestreams'' (drop n t2)"
    unfolding t2_def by (rule cut)
  have n3: "\<forall>n<length t3. \<not> sep_word_at CHR ''-'' ''Watch Live'' (drop n t3)"
    unfolding t3_def by (rule cut)
  have n4: "\<forall>n<length t4. \<not> sep_word_at CHR ''-'' ''Watch'' (drop n t4)"
    unfolding t4_def by (rule cut)
  have n5: "\<forall>n<length t5. \<not> sep_word_at CHR ''-'' ''Live Stream'' (drop n t5)"
    unfolding t5_def by (rule cut)
  have n6: "\<forall>n<length t6. \<not> sep_word_at CHR ''|'' [] (drop n t6)"
    unfolding t6_def by (rule cut)
  have n26: "\<forall>n<length t6. \<not> sep_word_at CHR ''-'' ''Roxiestreams'' (drop n t6)"
    unfolding t6_def t5_def t4_def t3_def
    by (intro other n2)
  have n36: "\<forall>n<length t6. \<not> sep_word_at CHR ''-'' ''Watch Live'' (drop n t6)"
    unfolding t6_def t5_def t4_def
    by (intro other n3)
  have n46: "\<forall>n<length t6. \<not> sep_word_at CHR ''-'' ''Watch'' (drop n t6)"
    unfolding t6_def t5_def
    by (intro other n4)
  have n56: "\<forall>n<length t6. \<not> sep_word_at CHR ''-'' ''Live Stream'' (drop n t6)"
    unfolding t6_def
    by (intro other n5)
  from assms have "\<forall>n<length t6. \<not> sep_word_at sep w (drop n t6)"
    using n26 n36 n46 n56 n6 by auto
  then show ?thesis unfolding r using nomatch_strip[of "sep_word_at sep w" t6] sep_word_at_mono by blast
qed

lemma clean_result_tidy:
  "tidy (clean_event_title E x)"
  "clean_event_title E x = [] \<or> (hd (clean_event_title E x) \<notin> set '' -,:'' \<and> last (clean_event_title E x) \<notin> set '' -,:'')"
proof -
  let ?r = "clean_event_title E x"
  show e: "?r = [] \<or> (hd ?r \<notin> set '' -,:'' \<and> last ?r \<notin> set '' -,:'')"
  proof (cases "x = []")
    case True then show ?thesis by (simp add: clean_event_title_def)
  next
    case False
    then show ?thesis
      unfolding clean_event_title_def Let_def
      using strip_chars_ends by (simp only: if_False) blast
  qed
  have "sublist ?r (join '' '' (split_ws (py_strip (unescape E x))))"
  proof (cases "x = []")
    case True then show ?thesis by (simp add: clean_event_title_def)
  next
    case False
    then show ?thesis
      unfolding clean_event_title_def Let_def
      by (simp only: if_False)
         (meson strip_chars_sublist cut_at_sublist sublist_order.order.trans)
  qed
  then have "single_spaced ?r"
    using tidy_collapse single_spaced_sublist by (auto simp: tidy_def)
  with e show "tidy ?r" by (auto simp: tidy_def)
qed

subsection \<open>Titles: the claims\<close>

text \<open>
  C8. \<open>clean_event_title\<close> turns \<open>Team A vs Team B - Roxiestreams - Watch Live Sports\<close>
  into \<open>Team A vs Team B\<close>: the first rule removes the text from the separator before
  the brand name on, and the later rules find nothing left to remove.
\<close>

theorem clean_event_title_brand_suffix:
  "clean_event_title E ''Team A vs Team B - Roxiestreams - Watch Live Sports'' = ''Team A vs Team B''"
  by (simp add: clean_event_title_def unescape_def py_strip_def split_ws_def is_space_def
      sep_word_at_def imatch_def lower_def lower_char_def strip_chars_def)

text \<open>
  C6. The claim: \<open>clean_event_title\<close> is idempotent on every string. It is not:
  \<open>html.unescape\<close> runs on every call, and a title such as \<open>&amp;amp;\<close> cleans to
  \<open>&amp;\<close>, which cleans to \<open>&\<close>.
\<close>

theorem clean_event_title_not_idempotent:
  "clean_event_title offline (clean_event_title offline ''&amp;amp;'')
     \<noteq> clean_event_title offline ''&amp;amp;''"
  by (simp add: clean_event_title_def unescape_def py_strip_def split_ws_def is_space_def
      sep_word_at_def imatch_def lower_def lower_char_def strip_chars_def offline_def
      charref_at_def name_char_def opt_semicolon_def xml_charref_def)

text \<open>
  C6, as amended: cleaning a cleaned title changes nothing whenever \<open>html.unescape\<close>
  leaves the cleaned title as it is, which it does when the title has no \<open>&\<close>. All other
  steps (trimming, collapsing white space, the five suffix rules, stripping separators)
  are idempotent together.
\<close>

theorem clean_event_title_idempotent_unescaped:
  assumes "unescape E (clean_event_title E x) = clean_event_title E x"
  shows "clean_event_title E (clean_event_title E x) = clean_event_title E x"
  by (rule clean_fixed_point[OF clean_result_tidy(1) clean_result_tidy(2) _ assms])
     (rule clean_result_props)

theorem clean_event_title_idempotent_unescaped_witness:
  "unescape offline (clean_event_title offline ''NFL: Team A @ Team B | Watch on Roxiestreams'')
     = clean_event_title offline ''NFL: Team A @ Team B | Watch on Roxiestreams''
   \<and> clean_event_title offline
         (clean_event_title offline ''NFL: Team A @ Team B | Watch on Roxiestreams'')
       = clean_event_title offline ''NFL: Team A @ Team B | Watch on Roxiestreams''"
proof -
  have c: "clean_event_title offline ''NFL: Team A @ Team B | Watch on Roxiestreams''
             = ''NFL: Team A @ Team B''"
    by (simp add: clean_event_title_def unescape_def py_strip_def split_ws_def is_space_def
        sep_word_at_def imatch_def lower_def lower_char_def strip_chars_def)
  have h: "unescape offline (clean_event_title offline ''NFL: Team A @ Team B | Watch on Roxiestreams'')
             = clean_event_title offline ''NFL: Team A @ Team B | Watch on Roxiestreams''"
    unfolding c by (simp add: unescape_def)
  from h clean_event_title_idempotent_unescaped[OF h] show ?thesis by (rule conjI)
qed

subsection \<open>Fetch failures and empty runs\<close>

lemma derive_none: "derive_title_from_page E None fb = Inr []"
  by (simp add: derive_title_from_page_def)









subsection \<open>The run: one record for each URL\<close>

lemma fold_err_inv:
  assumes "\<And>x s s'. x \<in> set xs \<Longrightarrow> I s \<Longrightarrow> f x s = Inr s' \<Longrightarrow> I s'"
    and "I s" and "fold_err f xs s = Inr s'"
  shows "I s'"
  using assms
proof (induction xs arbitrary: s)
  case Nil
  then show ?case by simp
next
  case (Cons x xs)
  from Cons.prems(3) obtain s1 where 1: "f x s = Inr s1" and 2: "fold_err f xs s1 = Inr s'"
    by (auto split: sum.splits)
  have "I s1" using Cons.prems(1)[OF _ Cons.prems(2) 1] by simp
  then show ?case using Cons.IH[OF _ _ 2] Cons.prems(1) by auto
qed

lemma fold_io_inv:
  assumes "\<And>x s l s' l'. x \<in> set xs \<Longrightarrow> I s \<Longrightarrow> f x s l = (Inr s', l') \<Longrightarrow> I s'"
    and "I s" and "fold_io f xs s l = (Inr s', l')"
  shows "I s'"
  using assms
proof (induction xs arbitrary: s l)
  case Nil
  then show ?case by simp
next
  case (Cons x xs)
  from Cons.prems(3) obtain s1 l1 where 1: "f x s l = (Inr s1, l1)" and 2: "fold_io f xs s1 l1 = (Inr s', l')"
    by (auto split: sum.splits prod.splits)
  have i1: "I s1" using Cons.prems(1)[OF _ Cons.prems(2) 1] by simp
  note r = Cons.prems(1)[OF list.set_intros(2)]
  show ?case by (rule Cons.IH[OF r i1 2])
qed

lemma first_by_url_subset: "set (first_by_url xs) \<subseteq> set xs"
  by (induction xs rule: first_by_url.induct) auto

lemma distinct_first_by_url: "distinct (map manifest_url (first_by_url xs))"
proof (induction xs rule: first_by_url.induct)
  case 1
  then show ?case by simp
next
  case (2 s ss)
  have "manifest_url s \<notin> manifest_url ` set (first_by_url (filter (\<lambda>t. manifest_url t \<noteq> manifest_url s) ss))"
    using first_by_url_subset[of "filter (\<lambda>t. manifest_url t \<noteq> manifest_url s) ss"] by auto
  with 2 show ?case by simp
qed

lemma first_by_url_snoc:
  "first_by_url (xs @ [s]) =
     (if manifest_url s \<in> manifest_url ` set xs then first_by_url xs else first_by_url xs @ [s])"
proof (induction xs rule: first_by_url.induct)
  case 1
  then show ?case by simp
next
  case (2 x xs)
  show ?case
  proof (cases "manifest_url s = manifest_url x")
    case True
    then show ?thesis by simp
  next
    case False
    have "manifest_url s \<in> manifest_url ` set (filter (\<lambda>t. manifest_url t \<noteq> manifest_url x) xs)
          \<longleftrightarrow> manifest_url s \<in> manifest_url ` set xs"
      using False by auto
    with 2 False show ?thesis by simp
  qed
qed

lemma emit_inv:
  assumes "run_inv st"
    and "manifest_form u \<or> (contains ''.m3u8'' u \<and> m3u8_search u = None)"
  shows "run_inv (emit (c, n, u) st)"
  using assms
  by (auto simp: run_inv_def emit_def first_by_url_snoc manifest_url_def)

lemma manifest_form_nonempty: "manifest_form u \<Longrightarrow> u \<noteq> []"
  by (auto simp: manifest_form_def lower_def)

lemma extract_result:
  assumes "extract_m3u8_from_text E tx base = Inr x"
  shows "(x = None \<and> m3u8_search tx = None) \<or> (\<exists>m. x = Some m \<and> manifest_form m)"
proof (cases "m3u8_search tx")
  case None
  with assms show ?thesis by (simp add: extract_no_match)
next
  case (Some y)
  then obtain m r where s: "m3u8_search tx = Some (m, r)" by (cases y) auto
  with assms have x: "x = Some m" by (simp add: extract_match[OF s] split: if_splits)
  from m3u8_search_leftmost[OF s] have "m3u8_match_at (m @ r) = Some (m, r)" by auto
  from m3u8_match_at_form[OF this] have "manifest_form m" unfolding manifest_form_def by blast
  with x show ?thesis by simp
qed

lemma extract_or_self:
  assumes "extract_m3u8_from_text E u base = Inr x" and "contains ''.m3u8'' u"
  shows "manifest_form (if truthy x then the x else u)
         \<or> (contains ''.m3u8'' (if truthy x then the x else u)
              \<and> m3u8_search (if truthy x then the x else u) = None)"
  using extract_result[OF assms(1)] assms(2) manifest_form_nonempty
  by (auto simp: truthy_def)

lemma take_direct_inv:
  assumes "take_direct E cat a href st = Inr st'" and "contains ''.m3u8'' href" and "run_inv st"
  shows "run_inv st'"
proof -
  from assms(1) obtain x where x: "extract_m3u8_from_text E href (Some href) = Inr x"
    by (auto simp: take_direct_def bind_err_def split: sum.splits)
  show ?thesis
    using assms(1,3) x emit_inv[OF assms(3) extract_or_self[OF x assms(2)]]
    by (auto simp: take_direct_def bind_err_def Let_def derive_none split: if_splits)
qed

lemma take_found_inv:
  assumes "take_found E cat a href ev st = Inr st'" and "run_inv st"
  shows "run_inv st'"
proof (cases "snd ev = [] \<or> \<not> contains ''.m3u8'' (snd ev)")
  case True
  with assms show ?thesis by (cases ev) (auto simp: take_found_def)
next
  case False
  obtain t u where ev: "ev = (t, u)" by (cases ev)
  with False have c: "contains ''.m3u8'' u" by simp
  from assms(1) ev False obtain x where x: "extract_m3u8_from_text E u (Some href) = Inr x"
    by (auto simp: take_found_def bind_err_def split: sum.splits)
  show ?thesis
    using assms x ev False emit_inv[OF assms(2) extract_or_self[OF x c]]
    by (auto simp: take_found_def bind_err_def Let_def derive_none split: if_splits)
qed

lemma process_candidate_inv:
  assumes "process_candidate E cat cand st log = (Inr st', log')" and "run_inv st"
  shows "run_inv st'"
proof -
  obtain a href where cand: "cand = (a, href)" by (cases cand)
  show ?thesis
  proof (cases "contains ''.m3u8'' href")
    case True
    with assms cand show ?thesis
      by (auto simp: process_candidate_def intro: take_direct_inv)
  next
    case False
    with assms(1) cand obtain found l1 where
      f: "fold_err (take_found E cat a href) found st = Inr st'"
      by (auto simp: process_candidate_def split: prod.splits sum.splits)
    show ?thesis
      by (rule fold_err_inv[where I = run_inv, OF _ assms(2) f]) (rule take_found_inv)
  qed
qed

lemma process_category_inv:
  assumes "process_category E cat st log = (Inr st', log')" and "run_inv st"
  shows "run_inv st'"
proof (cases "get_category_event_candidates E cat log")
  case (Pair r l1)
  show ?thesis
  proof (cases r)
    case (Inl e)
    with Pair assms show ?thesis by (simp add: process_category_def)
  next
    case (Inr cands)
    with Pair assms(1) have f: "fold_io (process_candidate E cat) cands st l1 = (Inr st', log')"
      by (simp add: process_category_def)
    show ?thesis
      by (rule fold_io_inv[where I = run_inv, OF _ assms(2) f]) (rule process_candidate_inv)
  qed
qed

lemma collect_streams_inv:
  assumes "collect_streams E log = (Inr st, log')"
  shows "run_inv st"
proof -
  have 0: "run_inv \<lparr>all_streams = [], seen_urls = {}, offered = []\<rparr>"
    by (simp add: run_inv_def)
  show ?thesis
    by (rule fold_io_inv[where I = run_inv, OF _ 0 assms[unfolded collect_streams_def]])
       (rule process_category_inv)
qed

lemma main_streams:
  assumes "fst (main E log) = Inr (streams, files)"
  shows "\<exists>st log'. collect_streams E log = (Inr st, log') \<and> streams = all_streams st"
  using assms by (auto simp: main_def split: prod.splits sum.splits)

lemma two_category_run:
  "fst (main two_category_site []) =
     Inr ([(''misc'', ''Roxiestreams - First'', ''https://roxiestreams.live/live/1.m3u8''),
           (''soccer'', ''Soccer - Big Match'', ''https://cdn.example/2.m3u8?x=1'')],
          write_playlists (timestamp two_category_site)
            [(''misc'', ''Roxiestreams - First'', ''https://roxiestreams.live/live/1.m3u8''),
             (''soccer'', ''Soccer - Big Match'', ''https://cdn.example/2.m3u8?x=1'')])"
  by code_simp

text \<open>
  C3. Over one run of \<open>main\<close>, no two records have the same manifest URL: the records
  are, of all the records that the candidates of all categories led to, in the order of
  the run, the first one for each URL, with the category and the title it came with.
\<close>

theorem main_streams_deduplicated:
  assumes "fst (main E log) = Inr (streams, files)"
  shows "distinct (map manifest_url streams)
       \<and> (\<exists>st. fst (collect_streams E log) = Inr st \<and> streams = first_by_url (offered st))"
proof -
  from main_streams[OF assms] obtain st log' where
    c: "collect_streams E log = (Inr st, log')" and s: "streams = all_streams st" by blast
  from collect_streams_inv[OF c] have "all_streams st = first_by_url (offered st)"
    by (simp add: run_inv_def)
  with c s show ?thesis using distinct_first_by_url by auto
qed

theorem main_streams_deduplicated_witness:
  "fst (main two_category_site []) =
     Inr ([(''misc'', ''Roxiestreams - First'', ''https://roxiestreams.live/live/1.m3u8''),
           (''soccer'', ''Soccer - Big Match'', ''https://cdn.example/2.m3u8?x=1'')],
          write_playlists (timestamp two_category_site)
            [(''misc'', ''Roxiestreams - First'', ''https://roxiestreams.live/live/1.m3u8''),
             (''soccer'', ''Soccer - Big Match'', ''https://cdn.example/2.m3u8?x=1'')])
   \<and> distinct (map manifest_url
         [(''misc'', ''Roxiestreams - First'', ''https://roxiestreams.live/live/1.m3u8''),
          (''soccer'', ''Soccer - Big Match'', ''https://cdn.example/2.m3u8?x=1'')])"
  using two_category_run main_streams_deduplicated[OF two_category_run] by blast

subsection \<open>The run: the form of the manifest URLs\<close>




subsection \<open>The run: a direct link without text\<close>

text \<open>
  C7. The claim: a category page whose only candidate anchor has the href
  \<open>/live/123-match.m3u8\<close> and no text yields one record, with the absolute form of the href
  as its URL and a title derived from the slug of the URL. The run yields the one record
  with that URL, but its title is the whole URL: \<open>derive_title_from_page\<close> is called with
  no document and returns the empty string before it looks at \<open>fallback_url\<close>.
\<close>

theorem main_direct_link_title_is_url:
  "fst (main direct_link_site []) =
     Inr ([(''misc'', ''Roxiestreams - https://roxiestreams.live/live/123-match.m3u8'',
            ''https://roxiestreams.live/live/123-match.m3u8'')],
          write_playlists (timestamp direct_link_site)
            [(''misc'', ''Roxiestreams - https://roxiestreams.live/live/123-match.m3u8'',
              ''https://roxiestreams.live/live/123-match.m3u8'')])
   \<and> derive_title_from_page direct_link_site None
         (Some ''https://roxiestreams.live/live/123-match.m3u8'') = Inr []"
  by code_simp

subsection \<open>Iframes\<close>

lemma same_library:
  assumes "replace_charref E1 = replace_charref E2" "bracketed_host_ok E1 = bracketed_host_ok E2"
  shows "urlsplit E1 = urlsplit E2"
    and "urlparse E1 = urlparse E2"
    and "urljoin E1 = urljoin E2"
    and "extract_m3u8_from_text E1 = extract_m3u8_from_text E2"
    and "clean_event_title E1 = clean_event_title E2"
    and "derive_title_from_page E1 = derive_title_from_page E2"
    and "scan_anchor E1 = scan_anchor E2"
    and "scan_media E1 = scan_media E2"
    and "scan_iframe_anchor E1 = scan_iframe_anchor E2"
    and "scan_iframe_media E1 = scan_iframe_media E2"
    and "scan_page_text E1 = scan_page_text E2"
    and "finalize_one E1 = finalize_one E2"
proof -
  show 1: "urlsplit E1 = urlsplit E2"
    by (intro ext) (unfold urlsplit_def assms, rule refl)
  show 2: "urlparse E1 = urlparse E2"
    by (intro ext) (unfold urlparse_def 1, rule refl)
  show 3: "urljoin E1 = urljoin E2"
    by (intro ext) (unfold urljoin_def 2, rule refl)
  show 4: "extract_m3u8_from_text E1 = extract_m3u8_from_text E2"
    by (intro ext) (unfold extract_m3u8_from_text_def 2 3, rule refl)
  have 5: "unescape E1 = unescape E2"
    by (intro ext) (unfold unescape_def assms, rule refl)
  show 6: "clean_event_title E1 = clean_event_title E2"
    by (intro ext) (unfold clean_event_title_def 5, rule refl)
  show 7: "derive_title_from_page E1 = derive_title_from_page E2"
    by (intro ext) (unfold derive_title_from_page_def 2 6, rule refl)
  show "scan_anchor E1 = scan_anchor E2"
    by (intro ext) (unfold scan_anchor_def 4 6, rule refl)
  show "scan_media E1 = scan_media E2"
    by (intro ext) (unfold scan_media_def 4 6, rule refl)
  show "scan_iframe_anchor E1 = scan_iframe_anchor E2"
    by (intro ext) (unfold scan_iframe_anchor_def 4 6, rule refl)
  show "scan_iframe_media E1 = scan_iframe_media E2"
    by (intro ext) (unfold scan_iframe_media_def 4 6, rule refl)
  show "scan_page_text E1 = scan_page_text E2"
    by (intro ext) (unfold scan_page_text_def 4, rule refl)
  show "finalize_one E1 = finalize_one E2"
    by (intro ext) (unfold finalize_one_def 2 3 6 7, rule refl)
qed

lemmas nested_library =
  same_library[of "without_nested_iframes E log0" E for E log0, unfolded without_nested_iframes_def, simplified, folded without_nested_iframes_def]


lemma fetch_nested_later:
  "log \<noteq> log0 \<Longrightarrow>
     fetch (without_nested_iframes E log0) url log
       = (map_option (\<lambda>d. d\<lparr>iframes := []\<rparr>) (respond E log url), log @ [url])"
  by (simp add: fetch_def without_nested_iframes_def)

lemma fetch_nested_first:
  "fetch (without_nested_iframes E log0) url log0 = fetch E url log0"
  by (simp add: fetch_def without_nested_iframes_def)

lemma scan_iframe_nested:
  assumes "log \<noteq> log0"
  shows "scan_iframe (without_nested_iframes E log0) event_url base_title fr acc log
           = scan_iframe E event_url base_title fr acc log"
  unfolding scan_iframe_def nested_library fetch_nested_later[OF assms]
  by (cases "respond E log (projr (urljoin E event_url (py_strip (f_src fr))))")
     (auto simp: fetch_def split: sum.splits option.splits)

lemma scan_iframe_log:
  "length log \<le> length (snd (scan_iframe E event_url base_title fr acc log))"
  by (auto simp: scan_iframe_def fetch_def split: sum.splits option.splits)

lemma fold_scan_iframe_nested:
  assumes "length log0 < length log"
  shows "fold_io (scan_iframe (without_nested_iframes E log0) event_url base_title) frs acc log
           = fold_io (scan_iframe E event_url base_title) frs acc log"
  using assms
proof (induction frs arbitrary: acc log)
  case Nil
  then show ?case by simp
next
  case (Cons fr frs)
  from Cons.prems have ne: "log \<noteq> log0" by auto
  obtain r l1 where s: "scan_iframe E event_url base_title fr acc log = (r, l1)"
    by (cases "scan_iframe E event_url base_title fr acc log")
  with scan_iframe_log[of log E event_url base_title fr acc] Cons.prems
  have l1: "length log0 < length l1" by simp
  show ?case
    using Cons.IH[OF l1] s by (simp add: scan_iframe_nested[OF ne] split: sum.splits)
qed

lemma resolve_page_nested:
  assumes "length log0 < length log"
  shows "resolve_page (without_nested_iframes E log0) event_url anchor_text soup log
           = resolve_page E event_url anchor_text soup log"
  unfolding resolve_page_def nested_library fold_scan_iframe_nested[OF assms] by (rule refl)

lemma get_event_m3u8_nested:
  "get_event_m3u8 (without_nested_iframes E log) event_href anchor_text log
     = get_event_m3u8 E event_href anchor_text log"
proof -
  have r: "\<And>ev soup. resolve_page (without_nested_iframes E log) ev anchor_text soup (log @ [ev])
           = resolve_page E ev anchor_text soup (log @ [ev])"
    by (rule resolve_page_nested) simp
  show ?thesis
    unfolding get_event_m3u8_def nested_library fetch_nested_first
    by (auto simp: fetch_def r split: sum.splits option.splits)
qed

lemma scan_iframe_requests:
  "snd (scan_iframe E event_url base_title fr acc log) = log
   \<or> (\<exists>u. urljoin E event_url (py_strip (f_src fr)) = Inr u
          \<and> snd (scan_iframe E event_url base_title fr acc log) = log @ [u])"
  by (auto simp: scan_iframe_def fetch_def split: sum.splits option.splits)

lemma fold_scan_iframe_requests:
  "\<exists>reqs. snd (fold_io (scan_iframe E event_url base_title) frs acc log) = log @ reqs
       \<and> length reqs \<le> length frs
       \<and> (\<forall>u\<in>set reqs. \<exists>fr\<in>set frs. urljoin E event_url (py_strip (f_src fr)) = Inr u)"
proof (induction frs arbitrary: acc log)
  case Nil
  then show ?case by simp
next
  case (Cons fr frs)
  obtain r l1 where s: "scan_iframe E event_url base_title fr acc log = (r, l1)"
    by (cases "scan_iframe E event_url base_title fr acc log")
  from scan_iframe_requests[of E event_url base_title fr acc log] s
  obtain r1 where l1: "l1 = log @ r1" and r1: "length r1 \<le> 1"
    "\<forall>u\<in>set r1. urljoin E event_url (py_strip (f_src fr)) = Inr u"
    by fastforce
  show ?case
  proof (cases r)
    case (Inl e)
    with s l1 r1 show ?thesis by (intro exI[of _ r1]) auto
  next
    case (Inr acc1)
    from Cons.IH[of acc1 l1] obtain r2 where
      2: "snd (fold_io (scan_iframe E event_url base_title) frs acc1 l1) = l1 @ r2"
         "length r2 \<le> length frs"
         "\<forall>u\<in>set r2. \<exists>fr\<in>set frs. urljoin E event_url (py_strip (f_src fr)) = Inr u"
      by blast
    with s Inr l1 r1 show ?thesis by (intro exI[of _ "r1 @ r2"]) auto
  qed
qed

lemma resolve_page_requests:
  "\<exists>reqs. snd (resolve_page E event_url anchor_text soup log) = log @ reqs
       \<and> length reqs \<le> length (iframes soup)
       \<and> (\<forall>u\<in>set reqs. \<exists>fr\<in>set (iframes soup). urljoin E event_url (py_strip (f_src fr)) = Inr u)"
proof (cases "if anchor_text \<noteq> [] \<and> clean_event_title E anchor_text \<noteq> []
              then Inr (clean_event_title E anchor_text)
              else derive_title_from_page E (Some soup) (Some event_url)")
  case (Inl e)
  then show ?thesis unfolding resolve_page_def by (intro exI[of _ "[]"]) simp
next
  case bt: (Inr base_title)
  show ?thesis
  proof (cases "bind_err (fold_err (scan_anchor E event_url base_title) (anchors soup) ([], {}))
                  (fold_err (scan_media E event_url base_title) (medias soup))")
    case (Inl e)
    with bt show ?thesis unfolding resolve_page_def by (intro exI[of _ "[]"]) simp
  next
    case pre: (Inr acc2)
    obtain r l' where f: "fold_io (scan_iframe E event_url base_title) (iframes soup) acc2 log = (r, l')"
      by (cases "fold_io (scan_iframe E event_url base_title) (iframes soup) acc2 log")
    have s: "snd (resolve_page E event_url anchor_text soup log) = l'"
      unfolding resolve_page_def using bt pre f by (cases r) simp_all
    from fold_scan_iframe_requests[of E event_url base_title "iframes soup" acc2 log] f s
    show ?thesis by simp
  qed
qed

lemma get_event_m3u8_requests:
  "snd (get_event_m3u8 E event_href anchor_text log) = log
   \<or> (\<exists>ev. respond E log ev = None \<and> snd (get_event_m3u8 E event_href anchor_text log) = log @ [ev])
   \<or> (\<exists>ev soup reqs. respond E log ev = Some soup
         \<and> snd (get_event_m3u8 E event_href anchor_text log) = log @ ev # reqs
         \<and> length reqs \<le> length (iframes soup)
         \<and> (\<forall>u\<in>set reqs. \<exists>fr\<in>set (iframes soup). urljoin E ev (py_strip (f_src fr)) = Inr u))"
proof (cases "event_href = []")
  case True
  then show ?thesis by (simp add: get_event_m3u8_def)
next
  case ne: False
  show ?thesis
  proof (cases "if prefix ''http'' event_href then Inr event_href else urljoin E BASE_URL event_href")
    case (Inl e)
    with ne show ?thesis unfolding get_event_m3u8_def by simp
  next
    case ev: (Inr event_url)
    show ?thesis
    proof (cases "extract_m3u8_from_text E event_href (Some event_url)")
      case (Inl e)
      with ne ev show ?thesis unfolding get_event_m3u8_def by simp
    next
      case d: (Inr direct)
      show ?thesis
      proof (cases "truthy direct")
        case True
        with ne ev d show ?thesis unfolding get_event_m3u8_def by simp
      next
        case nd: False
        show ?thesis
        proof (cases "respond E log event_url")
          case None
          with ne ev d nd have "snd (get_event_m3u8 E event_href anchor_text log) = log @ [event_url]"
            unfolding get_event_m3u8_def by (simp add: fetch_def)
          with None show ?thesis by blast
        next
          case (Some soup)
          with ne ev d nd have g: "get_event_m3u8 E event_href anchor_text log
              = resolve_page E event_url anchor_text soup (log @ [event_url])"
            unfolding get_event_m3u8_def by (simp add: fetch_def)
          from resolve_page_requests[of E event_url anchor_text soup "log @ [event_url]"]
          obtain reqs where
            "snd (resolve_page E event_url anchor_text soup (log @ [event_url])) = log @ event_url # reqs"
            "length reqs \<le> length (iframes soup)"
            "\<forall>u\<in>set reqs. \<exists>fr\<in>set (iframes soup). urljoin E event_url (py_strip (f_src fr)) = Inr u"
            by auto
          with Some g show ?thesis by auto
        qed
      qed
    qed
  qed
qed

text \<open>
  C5. \<open>get_event_m3u8\<close> follows iframes one level deep and no further: take away the
  \<open>iframe\<close> elements of every document that is fetched after the event page, and neither
  the streams it returns nor the requests it makes change. The requests it makes are none,
  or the event page alone when that request fails, or the event page and then at most one
  request for each \<open>iframe\<close> element of the event page, to the address of such an element.
  So nothing that only an iframe inside the document of an iframe leads to is fetched or
  found.
\<close>

theorem get_event_m3u8_ignores_nested_iframes:
  "get_event_m3u8 (without_nested_iframes E log) event_href anchor_text log
     = get_event_m3u8 E event_href anchor_text log
   \<and> (snd (get_event_m3u8 E event_href anchor_text log) = log
      \<or> (\<exists>ev. respond E log ev = None
              \<and> snd (get_event_m3u8 E event_href anchor_text log) = log @ [ev])
      \<or> (\<exists>ev soup reqs. respond E log ev = Some soup
              \<and> snd (get_event_m3u8 E event_href anchor_text log) = log @ ev # reqs
              \<and> length reqs \<le> length (iframes soup)
              \<and> (\<forall>u\<in>set reqs. \<exists>fr\<in>set (iframes soup).
                     urljoin E ev (py_strip (f_src fr)) = Inr u)))"
  using get_event_m3u8_nested get_event_m3u8_requests by (rule conjI)

theorem get_event_m3u8_ignores_nested_iframes_witness:
  "get_event_m3u8 (without_nested_iframes nested_site []) ''/event/1'' ''Match'' []
     = (Inr [], [''https://roxiestreams.live/event/1'', ''https://roxiestreams.live/embed/1''])
   \<and> get_event_m3u8 nested_site ''/embed/1'' ''Match'' []
     = (Inr [(''Match'', ''https://cdn.example/deep.m3u8'')],
        [''https://roxiestreams.live/embed/1'', ''https://roxiestreams.live/embed/2''])"
proof -
  have a: "get_event_m3u8 nested_site ''/event/1'' ''Match'' []
     = (Inr [], [''https://roxiestreams.live/event/1'', ''https://roxiestreams.live/embed/1''])"
    by code_simp
  have b: "get_event_m3u8 nested_site ''/embed/1'' ''Match'' []
     = (Inr [(''Match'', ''https://cdn.example/deep.m3u8'')],
        [''https://roxiestreams.live/embed/1'', ''https://roxiestreams.live/embed/2''])"
    by code_simp
  from a get_event_m3u8_ignores_nested_iframes[of nested_site "[]" "''/event/1''" "''Match''"]
  have "get_event_m3u8 (without_nested_iframes nested_site []) ''/event/1'' ''Match'' []
     = (Inr [], [''https://roxiestreams.live/event/1'', ''https://roxiestreams.live/embed/1''])"
    by simp
  then show ?thesis using b by (rule conjI)
qed

end
